theory Spec2Isabelle
  imports Main "HOL-Library.Monad_Syntax" "HOL-Library.Word"
begin

section \<open>The program: copri.c\<close>

text \<open>
  The C file implements Bernstein's algorithms for factoring into coprimes on GMP integers.
  The embedding follows the file function by function.

  \<^item> An \<open>mpz_t\<close> is an unbounded signed integer: \<open>int\<close>. \<open>mpz_gcd\<close> is \<open>gcd\<close> (never
    negative), \<open>mpz_mul\<close> is \<open>*\<close>, \<open>mpz_fdiv_q\<close> and \<open>mpz_fdiv_r\<close> are floor division and
    its remainder, which are \<open>div\<close> and \<open>mod\<close> on \<open>int\<close>; GMP aborts on a zero divisor.
  \<^item> An \<open>mpz_array\<close> is the list of its used slots; \<open>array_add\<close> appends one value,
    \<open>array_add_array\<close> appends a list, \<open>array_init\<close> and \<open>array_clear\<close> give the empty list.
    A function that writes to an output array takes the array and returns it extended.
  \<^item> The \<open>mpz_pool\<close> only recycles temporaries (\<open>pool_pop\<close>, \<open>pool_push\<close>); a temporary
    is a bound variable here.
  \<^item> Every function returns an \<open>option\<close>: \<open>None\<close> is a run that yields no result, because
    a loop or a recursion never ends, because GMP aborts on a division by zero, because
    an index lies outside the array, or because a shift has no defined value. Messages
    printed to \<open>stderr\<close> are not part of the result.
  \<^item> \<open>size_t\<close> indices and counters are natural numbers. A call with \<open>to < from\<close> makes
    \<open>to - from\<close> wrap around in C and the recursion leave the array; such a call has no
    result here. Where a \<open>size_t\<close> meets an \<open>int\<close>, in \<open>bit\<close>, it is a word of 64 bits
    and the \<open>int\<close> a word of 32 bits.
  \<^item> The code is modelled as built without OpenMP (the \<open>#else\<close> branch of \<open>cb\<close>).
\<close>

type_synonym mpz = int
type_synonym mpz_array = "int list"

definition mpz_fdiv_q :: "mpz \<Rightarrow> mpz \<Rightarrow> mpz option" where
  "mpz_fdiv_q n d = (if d = 0 then None else Some (n div d))"

definition mpz_fdiv_r :: "mpz \<Rightarrow> mpz \<Rightarrow> mpz option" where
  "mpz_fdiv_r n d = (if d = 0 then None else Some (n mod d))"

subsection \<open>two_power\<close>

fun two_power :: "mpz \<Rightarrow> nat \<Rightarrow> mpz" where
  "two_power rot n = (if n > 0 then two_power (rot * rot) (n - 1) else rot)"

subsection \<open>gcd_ppi_ppo, ppi_ppo, ppi\<close>

text \<open>The \<open>while(1)\<close> loop of \<open>gcd_ppi_ppo\<close>, on the variables \<open>ppi\<close> and \<open>ppo\<close>.\<close>

partial_function (option) gcd_ppi_ppo_loop :: "mpz \<Rightarrow> mpz \<Rightarrow> (mpz \<times> mpz) option" where
  "gcd_ppi_ppo_loop ppi ppo =
     (let g = gcd ppi ppo in
      if g = 1 then Some (ppi, ppo)
      else do { ppo' \<leftarrow> mpz_fdiv_q ppo g; gcd_ppi_ppo_loop (ppi * g) ppo' })"

declare gcd_ppi_ppo_loop.simps [code]

text \<open>The result is the triple \<open>(gcd, ppi, ppo)\<close> of the three output parameters.\<close>

definition gcd_ppi_ppo :: "mpz \<Rightarrow> mpz \<Rightarrow> (mpz \<times> mpz \<times> mpz) option" where
  "gcd_ppi_ppo a b =
     do { ppo \<leftarrow> mpz_fdiv_q a (gcd a b);
          (ppi, ppo') \<leftarrow> gcd_ppi_ppo_loop (gcd a b) ppo;
          Some (gcd a b, ppi, ppo') }"

definition ppi_ppo :: "mpz \<Rightarrow> mpz \<Rightarrow> (mpz \<times> mpz) option" where
  "ppi_ppo a c = do { (g, ppi, ppo) \<leftarrow> gcd_ppi_ppo a c; Some (ppi, ppo) }"

definition ppi :: "mpz \<Rightarrow> mpz \<Rightarrow> mpz option" where
  "ppi a c = do { (g, ppi, ppo) \<leftarrow> gcd_ppi_ppo a c; Some ppi }"

subsection \<open>gcd_ppg_pple\<close>

partial_function (option) gcd_ppg_pple_loop :: "mpz \<Rightarrow> mpz \<Rightarrow> (mpz \<times> mpz) option" where
  "gcd_ppg_pple_loop ppg pple =
     (let g = gcd ppg pple in
      if g = 1 then Some (ppg, pple)
      else do { pple' \<leftarrow> mpz_fdiv_q pple g; gcd_ppg_pple_loop (ppg * g) pple' })"

declare gcd_ppg_pple_loop.simps [code]

text \<open>The result is the triple \<open>(gcd, ppg, pple)\<close>.\<close>

definition gcd_ppg_pple :: "mpz \<Rightarrow> mpz \<Rightarrow> (mpz \<times> mpz \<times> mpz) option" where
  "gcd_ppg_pple a b =
     do { ppg \<leftarrow> mpz_fdiv_q a (gcd a b);
          (ppg', pple) \<leftarrow> gcd_ppg_pple_loop ppg (gcd a b);
          Some (gcd a b, ppg', pple) }"

subsection \<open>append_cb\<close>

text \<open>
  \<open>append_cb\<close> calls itself from inside its \<open>while(1)\<close> loop and once more after it. The
  two places where control can be are the two frames: \<open>Acb_call a b\<close> is the entry of
  \<open>append_cb(out, a, b)\<close>; \<open>Acb_loop b c0 g h x n\<close> is the head of the loop (step 7) with
  the values of the variables that are live there.
\<close>

datatype acb_frame = Acb_call mpz mpz | Acb_loop mpz mpz mpz mpz mpz nat

partial_function (option) append_cb_frame :: "mpz_array \<Rightarrow> acb_frame \<Rightarrow> mpz_array option" where
  "append_cb_frame out f =
     (case f of
        Acb_call a b \<Rightarrow>
          if b = 1 then Some (if a \<noteq> 1 then out @ [a] else out)
          else do {
            (a1, r) \<leftarrow> ppi_ppo a b;
            (g, h, c) \<leftarrow> gcd_ppg_pple a1 b;
            append_cb_frame (if r \<noteq> 1 then out @ [r] else out) (Acb_loop b c g h c 1)
          }
      | Acb_loop b c0 g h x n \<Rightarrow>
          do {
            (g', h', c) \<leftarrow> gcd_ppg_pple h (g * g);
            let d = gcd c b;
            let x' = x * d;
            let y = two_power d (n - 1);
            b1 \<leftarrow> mpz_fdiv_q c y;
            out' \<leftarrow> append_cb_frame out (Acb_call b1 d);
            if h' = 1 then
              do { b1' \<leftarrow> mpz_fdiv_q b x'; append_cb_frame out' (Acb_call b1' c0) }
            else append_cb_frame out' (Acb_loop b c0 g' h' x' (n + 1))
          })"

declare append_cb_frame.simps [code]

definition append_cb :: "mpz_array \<Rightarrow> mpz \<Rightarrow> mpz \<Rightarrow> mpz_array option" where
  "append_cb out a b = append_cb_frame out (Acb_call a b)"

subsection \<open>prod and split\<close>

function prod_arr :: "mpz_array \<Rightarrow> nat \<Rightarrow> nat \<Rightarrow> mpz option" where
  "prod_arr array from to =
     (if to < from \<or> length array \<le> to then None
      else if to - from = 0 then Some (array ! from)
      else do {
        x \<leftarrow> prod_arr array from (to - (to - from) div 2 - 1);
        y \<leftarrow> prod_arr array (to - (to - from) div 2) to;
        Some (x * y)
      })"
  by pat_completeness auto
termination
  by (relation "measure (\<lambda>(array, from, to). to - from)") auto

definition array_prod :: "mpz_array \<Rightarrow> mpz option" where
  "array_prod a = (if length a > 0 then prod_arr a 0 (length a - 1) else Some 1)"

function split :: "mpz_array \<Rightarrow> mpz \<Rightarrow> mpz_array \<Rightarrow> nat \<Rightarrow> nat \<Rightarrow> mpz_array option" where
  "split ret a p from to =
     (if to < from \<or> length p \<le> to then None
      else do {
        x \<leftarrow> prod_arr p from to;
        b \<leftarrow> ppi a x;
        if to - from = 0 then Some (ret @ [b])
        else do {
          ret' \<leftarrow> split ret b p from (to - (to - from) div 2 - 1);
          split ret' b p (to - (to - from) div 2) to
        }
      })"
  by pat_completeness auto
termination
  by (relation "measure (\<lambda>(ret, a, p, from, to). to - from)") auto

definition array_split :: "mpz_array \<Rightarrow> mpz \<Rightarrow> mpz_array \<Rightarrow> mpz_array option" where
  "array_split ret a p = (if length p > 0 then split ret a p 0 (length p - 1) else Some ret)"

subsection \<open>cbextend\<close>

text \<open>The \<open>for\<close> loop of step 6, over the indices it visits.\<close>

primrec cbextend_loop :: "mpz_array \<Rightarrow> mpz_array \<Rightarrow> mpz_array \<Rightarrow> nat list \<Rightarrow> mpz_array option" where
  "cbextend_loop ret p s [] = Some ret"
| "cbextend_loop ret p s (i # is) =
     do { ret' \<leftarrow> append_cb ret (p ! i) (s ! i); cbextend_loop ret' p s is }"

text \<open>
  Step 1 has no \<open>return\<close> in the C code: after it the function goes on with step 2 also
  when \<open>p\<close> is empty.
\<close>

definition cbextend :: "mpz_array \<Rightarrow> mpz_array \<Rightarrow> mpz \<Rightarrow> mpz_array option" where
  "cbextend ret p b =
     (let ret1 = (if length p = 0 then (if b \<noteq> 1 then ret @ [b] else ret) else ret) in
      do {
        x \<leftarrow> array_prod p;
        (a, r) \<leftarrow> ppi_ppo b x;
        let ret2 = (if r \<noteq> 1 then ret1 @ [r] else ret1);
        s \<leftarrow> array_split [] a p;
        if length p \<noteq> length s then Some ret2
        else cbextend_loop ret2 p s [0..<length p]
      })"

subsection \<open>bit and cbmerge\<close>

text \<open>
  \<open>bit(i, k)\<close> tests \<open>k & (1 << i)\<close>. The constant \<open>1\<close> is an \<open>int\<close>, so the shift is one
  of a word of 32 bits; its value is converted to the 64 bits of the \<open>size_t\<close> \<open>k\<close> with
  its sign, which for \<open>i = 31\<close> sets the bits 31 to 63. A shift by 32 or more has no
  defined value in C, and no result here.
\<close>

definition bit_k :: "nat \<Rightarrow> nat \<Rightarrow> int option" where
  "bit_k i k =
     (if 32 \<le> i then None
      else if and (word_of_nat k :: 64 word) (scast (push_bit i (1 :: 32 word))) \<noteq> 0 then Some 1
      else Some 0)"

text \<open>The \<open>do ... while\<close> loop that finds \<open>b\<close>, entered with \<open>b = 0\<close>.\<close>

function cbmerge_b_loop :: "nat \<Rightarrow> nat \<Rightarrow> nat" where
  "cbmerge_b_loop n b = (let b' = b + 1 in if (2::int) ^ b' < int n then cbmerge_b_loop n b' else b')"
  by pat_completeness auto
termination
proof (relation "measure (\<lambda>(n, b). n - 2 ^ b)")
  show "wf (measure (\<lambda>(n, b). n - 2 ^ b))" by simp
next
  fix n b x
  assume x: "x = b + 1" and lt: "(2::int) ^ x < int n"
  have "int ((2::nat) ^ x) < int n" using lt by simp
  hence "(2::nat) ^ x < n" by linarith
  moreover have "(2::nat) ^ b < 2 ^ x" unfolding x by simp
  ultimately have "n - 2 ^ x < n - 2 ^ b" by linarith
  thus "((n, x), (n, b)) \<in> measure (\<lambda>(n, b). n - 2 ^ b)" by simp
qed

definition cbmerge_b :: "nat \<Rightarrow> nat" where
  "cbmerge_b n = cbmerge_b_loop n 0"

text \<open>
  The \<open>while(1)\<close> loop of \<open>cbmerge\<close> runs its body for \<open>i = 0, ..., b - 1\<close>; the list holds
  the values of \<open>i\<close> still to come. \<open>s\<close> is cleared before it is filled again, and \<open>t\<close> is
  fresh on every round.
\<close>

text \<open>
  The two \<open>for\<close> loops that fill \<open>r\<close>, over the indices \<open>k\<close> still to come: the first loop
  (\<open>want = False\<close>) adds \<open>q[k]\<close> when \<open>bit(i, k)\<close> is zero, the second (\<open>want = True\<close>) when it
  is not.
\<close>

primrec bit_select :: "bool \<Rightarrow> nat \<Rightarrow> mpz_array \<Rightarrow> mpz_array \<Rightarrow> nat list \<Rightarrow> mpz_array option" where
  "bit_select want i q r [] = Some r"
| "bit_select want i q r (k # ks) =
     do {
       c \<leftarrow> bit_k i k;
       bit_select want i q (if (c \<noteq> 0) = want then r @ [q ! k] else r) ks
     }"

primrec cbmerge_loop :: "mpz_array \<Rightarrow> mpz_array \<Rightarrow> nat list \<Rightarrow> mpz_array option" where
  "cbmerge_loop q s [] = Some s"
| "cbmerge_loop q s (i # is) =
     do {
       r \<leftarrow> bit_select False i q [] [0..<length q];
       x \<leftarrow> array_prod r;
       t \<leftarrow> cbextend [] s x;
       r' \<leftarrow> bit_select True i q [] [0..<length q];
       x' \<leftarrow> array_prod r';
       s' \<leftarrow> cbextend [] t x';
       cbmerge_loop q s' is
     }"

definition cbmerge :: "mpz_array \<Rightarrow> mpz_array \<Rightarrow> mpz_array \<Rightarrow> mpz_array option" where
  "cbmerge s p q = cbmerge_loop q (s @ p) [0..<cbmerge_b (length q)]"

subsection \<open>cb\<close>

function cb :: "mpz_array \<Rightarrow> mpz_array \<Rightarrow> nat \<Rightarrow> nat \<Rightarrow> mpz_array option" where
  "cb ret s from to =
     (if to < from \<or> length s \<le> to then None
      else if to - from = 0 then
        (if s ! from = 0 then Some ret
         else if s ! from \<noteq> 1 then Some (ret @ [s ! from])
         else Some ret)
      else do {
        p \<leftarrow> cb [] s from (to - (to - from) div 2 - 1);
        q \<leftarrow> cb [] s (to - (to - from) div 2) to;
        if length q \<noteq> 0 \<and> length p \<noteq> 0 then cbmerge ret p q
        else if length q = 0 \<and> length p \<noteq> 0 then Some (ret @ p)
        else if length q \<noteq> 0 \<and> length p = 0 then Some (ret @ q)
        else Some ret
      })"
  by pat_completeness auto
termination
  by (relation "measure (\<lambda>(ret, s, from, to). to - from)") auto

definition array_cb :: "mpz_array \<Rightarrow> mpz_array \<Rightarrow> mpz_array option" where
  "array_cb ret s = (if length s > 0 then cb ret s 0 (length s - 1) else Some ret)"

subsection \<open>reduce\<close>

text \<open>The result is the pair \<open>(i, pai)\<close> of the two output parameters.\<close>

partial_function (option) reduce :: "mpz \<Rightarrow> mpz \<Rightarrow> (mpz \<times> mpz) option" where
  "reduce p a =
     do {
       r \<leftarrow> mpz_fdiv_r a p;
       if r \<noteq> 0 then Some (0, a)
       else do {
         a2 \<leftarrow> mpz_fdiv_q a p;
         (j, b) \<leftarrow> reduce (p * p) a2;
         r' \<leftarrow> mpz_fdiv_r b p;
         if r' = 0 then do { b' \<leftarrow> mpz_fdiv_q b p; Some (j * 2 + 2, b') }
         else Some (j * 2 + 1, b)
       }
     }"

declare reduce.simps [code]

subsection \<open>find_factor\<close>

text \<open>The result is the output array and the returned flag \<open>r\<close> (\<open>True\<close> for 1).\<close>

function find_factor ::
  "mpz_array \<Rightarrow> mpz \<Rightarrow> mpz \<Rightarrow> mpz_array \<Rightarrow> nat \<Rightarrow> nat \<Rightarrow> (mpz_array \<times> bool) option" where
  "find_factor out a0 a p from to =
     (if to < from \<or> length p \<le> to then None
      else if to - from = 0 then
        do {
          (m, c) \<leftarrow> reduce (p ! from) a;
          if c \<noteq> 1 then Some (out, False)
          else if a0 \<noteq> p ! from then
            do { y \<leftarrow> mpz_fdiv_q a0 (p ! from); Some (out @ [a0, p ! from, y], False) }
          else Some (out, True)
        }
      else do {
        y \<leftarrow> prod_arr p from (to - (to - from) div 2 - 1);
        (b, c2) \<leftarrow> ppi_ppo a y;
        (out1, r1) \<leftarrow> find_factor out a0 b p from (to - (to - from) div 2 - 1);
        if \<not> r1 then Some (out1, False)
        else do {
          (out2, r2) \<leftarrow> find_factor out1 a0 c2 p (to - (to - from) div 2) to;
          if \<not> r2 then Some (out2, False) else Some (out2, True)
        }
      })"
  by pat_completeness auto
termination
  by (relation "measure (\<lambda>(out, a0, a, p, from, to). to - from)") auto

definition array_find_factor :: "mpz_array \<Rightarrow> mpz \<Rightarrow> mpz_array \<Rightarrow> (mpz_array \<times> bool) option" where
  "array_find_factor out a p =
     (if length p > 0 then find_factor out a a p 0 (length p - 1) else Some (out, False))"

section \<open>Basic facts about the operations\<close>

lemma mpz_fdiv_q_Some [simp]: "d \<noteq> 0 \<Longrightarrow> mpz_fdiv_q n d = Some (n div d)"
  by (simp add: mpz_fdiv_q_def)

lemma mpz_fdiv_r_Some [simp]: "d \<noteq> 0 \<Longrightarrow> mpz_fdiv_r n d = Some (n mod d)"
  by (simp add: mpz_fdiv_r_def)

lemma mpz_fdiv_q_zero [simp]: "mpz_fdiv_q n 0 = None"
  by (simp add: mpz_fdiv_q_def)

lemma mpz_fdiv_r_zero [simp]: "mpz_fdiv_r n 0 = None"
  by (simp add: mpz_fdiv_r_def)

subsection \<open>The loop of gcd_ppi_ppo\<close>

lemma gcd_ppi_ppo_loop_exit: "gcd i o' = 1 \<Longrightarrow> gcd_ppi_ppo_loop i o' = Some (i, o')"
  by (subst gcd_ppi_ppo_loop.simps) simp

lemma gcd_ppi_ppo_loop_step:
  "gcd i o' \<noteq> 1 \<Longrightarrow> gcd i o' \<noteq> 0 \<Longrightarrow>
   gcd_ppi_ppo_loop i o' = gcd_ppi_ppo_loop (i * gcd i o') (o' div gcd i o')"
  by (subst gcd_ppi_ppo_loop.simps) (simp add: Let_def)

lemma gcd_ppi_ppo_loop_total:
  fixes i o' :: int
  assumes "0 < i" "0 < o'"
  shows "\<exists>i' o''. gcd_ppi_ppo_loop i o' = Some (i', o'') \<and> 0 < i' \<and> 0 < o'' \<and>
           i' * o'' = i * o' \<and> coprime i' o'' \<and> i dvd i' \<and> (\<exists>k. i' dvd i ^ k)"
  using assms
proof (induction "nat o'" arbitrary: i o' rule: less_induct)
  case less
  let ?g = "gcd i o'"
  show ?case
  proof (cases "?g = 1")
    case True
    have "i dvd i ^ 1" by simp
    hence "\<exists>k. i dvd i ^ k" by blast
    with True less.prems show ?thesis
      by (simp add: gcd_ppi_ppo_loop_exit coprime_iff_gcd_eq_1)
  next
    case False
    have gpos: "0 < ?g" using less.prems by (simp add: gcd_pos_int)
    hence g2: "2 \<le> ?g" using False by linarith
    have gd: "?g dvd o'" by simp
    then obtain m where m: "o' = ?g * m" by (rule dvdE)
    have mpos: "0 < m"
    proof (rule ccontr)
      assume "\<not> 0 < m"
      hence "m \<le> 0" by simp
      hence "?g * m \<le> 0" using gpos by (simp add: mult_le_0_iff)
      thus False using m less.prems by simp
    qed
    have divm: "o' div ?g = m" using gpos by (subst m) simp
    have "1 * m < ?g * m" using g2 mpos by (intro mult_strict_right_mono) simp_all
    hence "m < o'" using m by simp
    hence "nat m < nat o'" using mpos by simp
    moreover have "nat m = nat (o' div ?g)" using divm by simp
    ultimately have "nat (o' div ?g) < nat o'" by simp
    from less.hyps[OF this, of "i * ?g"] gpos less.prems mpos divm
    obtain i' o'' where r: "gcd_ppi_ppo_loop (i * ?g) m = Some (i', o'')" "0 < i'" "0 < o''"
      "i' * o'' = (i * ?g) * m" "coprime i' o''" "i * ?g dvd i'" and k: "\<exists>k. i' dvd (i * ?g) ^ k"
      by auto
    from k obtain k where "i' dvd (i * ?g) ^ k" ..
    moreover have "(i * ?g) ^ k dvd (i * i) ^ k" by (intro dvd_power_same mult_dvd_mono) simp_all
    ultimately have "i' dvd (i * i) ^ k" by (rule dvd_trans)
    hence "i' dvd i ^ (2 * k)" by (simp add: power_mult power2_eq_square)
    hence k': "\<exists>k. i' dvd i ^ k" by blast
    have "gcd_ppi_ppo_loop i o' = Some (i', o'')"
      using gcd_ppi_ppo_loop_step[OF False] gpos r(1) divm by simp
    moreover have "i' * o'' = i * o'" using r(4) m by (simp add: mult.assoc)
    moreover have "i dvd i'" using r(6) by (rule dvd_mult_left)
    ultimately show ?thesis using r k' by blast
  qed
qed


lemma gcd_ppi_ppo_total:
  fixes a b :: int
  assumes "0 < a" "0 < b"
  shows "\<exists>i o'. gcd_ppi_ppo a b = Some (gcd a b, i, o') \<and> 0 < i \<and> 0 < o' \<and>
           i * o' = a \<and> coprime i o' \<and> gcd a b dvd i \<and> (\<exists>k. i dvd b ^ k) \<and> coprime o' b"
proof -
  let ?g = "gcd a b"
  have gpos: "0 < ?g" using assms by (simp add: gcd_pos_int)
  have "?g dvd a" by simp
  then obtain m where m: "a = ?g * m" by (rule dvdE)
  have mpos: "0 < m"
  proof (rule ccontr)
    assume "\<not> 0 < m"
    hence "m \<le> 0" by simp
    hence "?g * m \<le> 0" using gpos by (simp add: mult_le_0_iff)
    thus False using m assms by simp
  qed
  have divm: "a div ?g = m" using gpos by (subst m) simp
  from gcd_ppi_ppo_loop_total[OF gpos mpos]
  obtain i o' where r: "gcd_ppi_ppo_loop ?g m = Some (i, o')" "0 < i" "0 < o'"
    "i * o' = ?g * m" "coprime i o'" "?g dvd i" and k: "\<exists>k. i dvd ?g ^ k"
    by blast
  from k obtain k where "i dvd ?g ^ k" ..
  moreover have "?g ^ k dvd b ^ k" by (intro dvd_power_same) simp
  ultimately have ib: "i dvd b ^ k" by (rule dvd_trans)
  have "o' dvd a" using r(4) m by (metis dvd_triv_right)
  hence "gcd o' b dvd ?g" by (simp add: gcd_dvdI1)
  hence "gcd o' b dvd i" using r(6) by (rule dvd_trans)
  moreover have "gcd o' b dvd o'" by simp
  ultimately have "is_unit (gcd o' b)" using r(5) by (metis coprime_common_divisor)
  hence cop: "coprime o' b" by (simp add: coprime_iff_gcd_eq_1)
  have "gcd_ppi_ppo a b = Some (?g, i, o')"
    using gpos r(1) divm by (simp add: gcd_ppi_ppo_def)
  moreover have "i * o' = a" using r(4) m by simp
  moreover have "\<exists>k. i dvd b ^ k" using ib by blast
  ultimately show ?thesis using r(2,3,5,6) cop by blast
qed

subsection \<open>reduce\<close>

lemma reduce_total:
  fixes p a :: int
  assumes "2 \<le> p" "0 < a"
  shows "\<exists>i c. reduce p a = Some (i, c) \<and> 0 \<le> i \<and> 0 < c \<and> p ^ nat i * c = a \<and> \<not> p dvd c"
  using assms
proof (induction "nat a" arbitrary: p a rule: less_induct)
  case less
  have p0: "p \<noteq> 0" using less.prems by simp
  show ?case
  proof (cases "p dvd a")
    case False
    hence "a mod p \<noteq> 0" by (simp add: dvd_eq_mod_eq_0)
    hence "reduce p a = Some (0, a)" using p0 by (subst reduce.simps) simp
    thus ?thesis using False less.prems by simp
  next
    case True
    then obtain m where m: "a = p * m" by (rule dvdE)
    have mpos: "0 < m"
    proof (rule ccontr)
      assume "\<not> 0 < m"
      hence "m \<le> 0" by simp
      hence "p * m \<le> 0" using less.prems by (simp add: mult_le_0_iff)
      thus False using m less.prems by simp
    qed
    have divm: "a div p = m" using p0 by (subst m) simp
    have "1 * m < p * m" using less.prems mpos by (intro mult_strict_right_mono) simp_all
    hence "m < a" using m by simp
    hence lt: "nat m < nat a" using mpos by simp
    have p2: "2 \<le> p * p"
    proof -
      have "2 * 1 \<le> p * p" using less.prems by (intro mult_mono) simp_all
      thus ?thesis by simp
    qed
    from less.hyps[OF lt p2 mpos]
    obtain j b where r: "reduce (p * p) m = Some (j, b)" "0 \<le> j" "0 < b"
      "(p * p) ^ nat j * b = m" "\<not> p * p dvd b" by blast
    have pw: "p ^ (2 * nat j) * b = m" using r(4) by (simp add: power_mult power2_eq_square)
    have amod: "a mod p = 0" using True by simp
    show ?thesis
    proof (cases "p dvd b")
      case True
      then obtain b' where b': "b = p * b'" by (rule dvdE)
      have b'pos: "0 < b'"
      proof (rule ccontr)
        assume "\<not> 0 < b'"
        hence "b' \<le> 0" by simp
        hence "p * b' \<le> 0" using less.prems by (simp add: mult_le_0_iff)
        thus False using b' r(3) by simp
      qed
      have divb: "b div p = b'" using p0 by (subst b') simp
      have "reduce p a = Some (j * 2 + 2, b')"
        using p0 amod divm r(1) True divb by (subst reduce.simps) simp
      moreover have "nat (j * 2 + 2) = 2 * nat j + 2" using r(2) by simp
      moreover have "p ^ (2 * nat j + 2) * b' = a"
      proof -
        have "p ^ (2 * nat j + 2) * b' = p * (p ^ (2 * nat j) * (p * b'))"
          by (simp add: power_add power2_eq_square)
        also have "\<dots> = a" using pw b' m by simp
        finally show ?thesis .
      qed
      moreover have "\<not> p dvd b'"
      proof
        assume "p dvd b'"
        hence "p * p dvd p * b'" by (intro mult_dvd_mono) simp_all
        thus False using r(5) b' by simp
      qed
      ultimately show ?thesis using r(2) b'pos by auto
    next
      case False
      hence "b mod p \<noteq> 0" by (simp add: dvd_eq_mod_eq_0)
      hence "reduce p a = Some (j * 2 + 1, b)"
        using p0 amod divm r(1) by (subst reduce.simps) simp
      moreover have "nat (j * 2 + 1) = 2 * nat j + 1" using r(2) by simp
      moreover have "p ^ (2 * nat j + 1) * b = a"
      proof -
        have "p ^ (2 * nat j + 1) * b = p * (p ^ (2 * nat j) * b)" by simp
        also have "\<dots> = a" using pw m by simp
        finally show ?thesis .
      qed
      ultimately show ?thesis using r(2,3) False by auto
    qed
  qed
qed

lemma reduce_returns_not_one:
  assumes "reduce p a = Some y"
  shows "p \<noteq> 1"
proof (rule reduce.raw_induct[where P = "\<lambda>p a y. p \<noteq> 1", OF _ assms])
  fix rd :: "int \<Rightarrow> int \<Rightarrow> (int \<times> int) option" and p a :: int and y :: "int \<times> int"
  assume ih: "\<And>p a y. rd p a = Some y \<Longrightarrow> p \<noteq> 1"
    and body: "mpz_fdiv_r a p \<bind>
       (\<lambda>r. if r \<noteq> 0 then Some (0, a)
             else mpz_fdiv_q a p \<bind>
                  (\<lambda>a2. rd (p * p) a2 \<bind>
                        (\<lambda>(j, b). mpz_fdiv_r b p \<bind>
                              (\<lambda>r'. if r' = 0 then mpz_fdiv_q b p \<bind> (\<lambda>b'. Some (j * 2 + 2, b'))
                                    else Some (j * 2 + 1, b))))) = Some y"
  show "p \<noteq> 1"
  proof
    assume "p = 1"
    with body obtain j b where "rd 1 a = Some (j, b)"
      by (auto simp: bind_eq_Some_conv split: if_splits)
    with ih show False by blast
  qed
qed

lemma reduce_one_diverges: "reduce 1 a = None"
proof (cases "reduce 1 a")
  case (Some y)
  thus ?thesis using reduce_returns_not_one by blast
qed simp


subsection \<open>prod\<close>

declare prod_arr.simps [simp del]
declare split.simps [simp del]
declare cb.simps [simp del]
declare find_factor.simps [simp del]
declare cbmerge_b_loop.simps [simp del]
declare two_power.simps [simp del]

lemma halves:
  fixes "from" to :: nat
  assumes "from \<le> to" "to - from \<noteq> 0"
  shows "from \<le> to - (to - from) div 2 - 1"
    and "Suc (to - (to - from) div 2 - 1) = to - (to - from) div 2"
    and "to - (to - from) div 2 \<le> to"
    and "to - (to - from) div 2 - 1 < to"
  using assms by auto

lemma prod_arr_eq:
  "from \<le> to \<Longrightarrow> to < length array \<Longrightarrow>
   prod_arr array from to = Some (prod_list (map (nth array) [from..<Suc to]))"
proof (induction array "from" to rule: prod_arr.induct)
  case (1 array "from" to)
  show ?case
  proof (cases "to - from = 0")
    case True
    hence "to = from" using 1(3) by simp
    thus ?thesis using 1(4) by (subst prod_arr.simps) simp
  next
    case False
    let ?m = "to - (to - from) div 2 - 1"
    note h = halves[OF 1(3) False]
    have g: "\<not> (to < from \<or> length array \<le> to)" using 1(3,4) by simp
    have l: "prod_arr array from ?m = Some (prod_list (map (nth array) [from..<Suc ?m]))"
      using 1(1)[OF g False h(1)] h(4) 1(4) by (simp del: upt_Suc)
    have r: "prod_arr array (Suc ?m) to = Some (prod_list (map (nth array) [Suc ?m..<Suc to]))"
      using 1(2)[OF g False _ h(3) 1(4)] l h(2) by (simp del: upt_Suc)
    have "[from..<Suc to] = [from..<Suc ?m] @ [Suc ?m..<Suc to]"
    proof -
      have "from \<le> Suc ?m" using h(1) by simp
      hence "[from..<Suc ?m + (to - ?m)] = [from..<Suc ?m] @ [Suc ?m..<Suc ?m + (to - ?m)]"
        by (rule upt_add_eq_append)
      moreover have "Suc ?m + (to - ?m) = Suc to" using h(4) by simp
      ultimately show ?thesis by (simp del: upt_Suc)
    qed
    hence "prod_list (map (nth array) [from..<Suc to]) =
           prod_list (map (nth array) [from..<Suc ?m]) * prod_list (map (nth array) [Suc ?m..<Suc to])"
      by (simp del: upt_Suc)
    thus ?thesis using g False l r h(2) by (subst prod_arr.simps) (simp del: upt_Suc)
  qed
qed

lemma array_prod_eq: "array_prod a = Some (prod_list a)"
proof (cases "a = []")
  case True
  thus ?thesis by (simp add: array_prod_def)
next
  case False
  hence "prod_arr a 0 (length a - 1) = Some (prod_list (map (nth a) [0..<Suc (length a - 1)]))"
    by (intro prod_arr_eq) simp_all
  moreover have "map (nth a) [0..<Suc (length a - 1)] = a" using False by (simp add: map_nth)
  ultimately show ?thesis using False by (simp add: array_prod_def)
qed

subsection \<open>Values of the loops at 1\<close>

lemma gcd_ppi_ppo_one_left: "gcd_ppi_ppo 1 x = Some (1, 1, 1)"
  by (simp add: gcd_ppi_ppo_def gcd_ppi_ppo_loop_exit)

lemma gcd_ppi_ppo_one_right: "gcd_ppi_ppo b 1 = Some (1, 1, b)"
  by (simp add: gcd_ppi_ppo_def gcd_ppi_ppo_loop_exit)

lemma append_cb_one: "append_cb out a 1 = Some (if a \<noteq> 1 then out @ [a] else out)"
  unfolding append_cb_def by (subst append_cb_frame.simps) simp

lemma split_one:
  "from \<le> to \<Longrightarrow> to < length p \<Longrightarrow>
   split ret 1 p from to = Some (ret @ replicate (Suc (to - from)) 1)"
proof (induction ret "1::int" p "from" to rule: split.induct)
  case (1 ret p "from" to)
  have g: "\<not> (to < from \<or> length p \<le> to)" using 1(3,4) by simp
  have x: "prod_arr p from to = Some (prod_list (map (nth p) [from..<Suc to]))"
    using 1(3,4) by (rule prod_arr_eq)
  have b: "ppi 1 (prod_list (map (nth p) [from..<Suc to])) = Some 1"
    by (simp add: ppi_def gcd_ppi_ppo_one_left)
  show ?case
  proof (cases "to - from = 0")
    case True
    thus ?thesis using g x b by (subst split.simps) simp
  next
    case False
    let ?m = "to - (to - from) div 2 - 1"
    note h = halves[OF 1(3) False]
    have l: "split ret 1 p from ?m = Some (ret @ replicate (Suc (?m - from)) 1)"
      using 1(1)[OF g x b False] h(1,4) 1(4) by simp
    have r: "split (ret @ replicate (Suc (?m - from)) 1) 1 p (Suc ?m) to =
             Some ((ret @ replicate (Suc (?m - from)) 1) @ replicate (Suc (to - Suc ?m)) 1)"
      using 1(2)[OF g x b False l] h(2,3) 1(4) by simp
    have "Suc (?m - from) + Suc (to - Suc ?m) = Suc (to - from)" using h by linarith
    hence "replicate (Suc (?m - from)) (1::int) @ replicate (Suc (to - Suc ?m)) 1 =
           replicate (Suc (to - from)) 1"
      by (simp only: replicate_add[symmetric])
    thus ?thesis using g x b False l r h(2) by (subst split.simps) simp
  qed
qed

lemma array_split_one: "array_split [] 1 p = Some (replicate (length p) 1)"
proof (cases "p = []")
  case True
  thus ?thesis by (simp add: array_split_def)
next
  case False
  hence "split [] 1 p 0 (length p - 1) = Some ([] @ replicate (Suc (length p - 1 - 0)) 1)"
    by (intro split_one) simp_all
  thus ?thesis using False by (simp add: array_split_def)
qed

lemma cbextend_loop_ones:
  "\<forall>i\<in>set is. s ! i = 1 \<Longrightarrow>
   cbextend_loop ret p s is = Some (ret @ filter (\<lambda>v. v \<noteq> 1) (map (nth p) is))"
  by (induction "is" arbitrary: ret) (simp_all add: append_cb_one)

lemma cbextend_one: "cbextend ret p 1 = Some (ret @ filter (\<lambda>v. v \<noteq> 1) p)"
proof -
  have "cbextend_loop ret p (replicate (length p) 1) [0..<length p] =
        Some (ret @ filter (\<lambda>v. v \<noteq> 1) (map (nth p) [0..<length p]))"
    by (rule cbextend_loop_ones) simp
  thus ?thesis
    by (simp add: cbextend_def array_prod_eq ppi_ppo_def gcd_ppi_ppo_one_left array_split_one map_nth)
qed

lemma cbextend_empty: "cbextend ret [] b = Some (if b = 1 then ret else ret @ [b, b])"
  by (simp add: cbextend_def array_prod_eq ppi_ppo_def gcd_ppi_ppo_one_right array_split_def)

subsection \<open>The iteration count of cbmerge\<close>

lemma cbmerge_b_loop_spec:
  "(0 < b \<Longrightarrow> 2 ^ b < n) \<Longrightarrow>
   b < cbmerge_b_loop n b \<and> n \<le> 2 ^ cbmerge_b_loop n b \<and>
   (\<forall>c. b < c \<and> c < cbmerge_b_loop n b \<longrightarrow> 2 ^ c < n)"
proof (induction n b rule: cbmerge_b_loop.induct)
  case (1 n b)
  show ?case
  proof (cases "(2::int) ^ (b + 1) < int n")
    case True
    hence lt: "(2::nat) ^ (b + 1) < n" by (metis of_nat_less_iff of_nat_numeral of_nat_power)
    have eq: "cbmerge_b_loop n b = cbmerge_b_loop n (b + 1)"
      using True lt by (subst cbmerge_b_loop.simps) (simp add: Let_def)
    have ih: "b + 1 < cbmerge_b_loop n (b + 1) \<and> n \<le> 2 ^ cbmerge_b_loop n (b + 1) \<and>
          (\<forall>c. b + 1 < c \<and> c < cbmerge_b_loop n (b + 1) \<longrightarrow> 2 ^ c < n)"
      using 1(1)[OF refl True] lt by simp
    have "\<forall>c. b < c \<and> c < cbmerge_b_loop n (b + 1) \<longrightarrow> 2 ^ c < n"
    proof (intro allI impI)
      fix c assume c: "b < c \<and> c < cbmerge_b_loop n (b + 1)"
      show "2 ^ c < n"
      proof (cases "c = b + 1")
        case True thus ?thesis using lt by simp
      next
        case False
        hence "b + 1 < c" using c by simp
        thus ?thesis using ih c by blast
      qed
    qed
    thus ?thesis using ih eq by simp
  next
    case False
    hence ge: "n \<le> (2::nat) ^ (b + 1)"
      by (metis of_nat_less_iff of_nat_numeral of_nat_power not_le)
    have eq: "cbmerge_b_loop n b = b + 1"
      using False ge by (subst cbmerge_b_loop.simps) (simp add: Let_def)
    show ?thesis using ge eq by simp
  qed
qed

lemma cbmerge_b_least: "cbmerge_b n = (LEAST b. 1 \<le> b \<and> n \<le> 2 ^ b)"
proof -
  have s: "0 < cbmerge_b n \<and> n \<le> 2 ^ cbmerge_b n \<and> (\<forall>c. 0 < c \<and> c < cbmerge_b n \<longrightarrow> 2 ^ c < n)"
    unfolding cbmerge_b_def by (rule cbmerge_b_loop_spec) simp
  show ?thesis
  proof (rule Least_equality[symmetric])
    show "1 \<le> cbmerge_b n \<and> n \<le> 2 ^ cbmerge_b n" using s by simp
  next
    fix y assume y: "1 \<le> y \<and> n \<le> 2 ^ y"
    show "cbmerge_b n \<le> y"
    proof (rule ccontr)
      assume "\<not> cbmerge_b n \<le> y"
      hence "0 < y \<and> y < cbmerge_b n" using y by simp
      hence "2 ^ y < n" using s by blast
      thus False using y by simp
    qed
  qed
qed

lemma cbmerge_b_zero: "cbmerge_b 0 = 1"
  unfolding cbmerge_b_def by (subst cbmerge_b_loop.simps) (simp add: Let_def)

lemma cbmerge_empty_q: "cbmerge s p [] = Some (filter (\<lambda>v. v \<noteq> 1) (s @ p))"
  by (simp add: cbmerge_def cbmerge_b_zero array_prod_eq cbextend_one)

subsection \<open>find_factor on a single base element\<close>

lemma find_factor_single:
  assumes "from < length p" "reduce (p ! from) a = Some (m, 1)" "a0 \<noteq> p ! from"
  shows "find_factor out a0 a p from from = Some (out @ [a0, p ! from, a0 div (p ! from)], False)"
proof -
  have "p ! from \<noteq> 0"
  proof
    assume "p ! from = 0"
    hence "reduce (p ! from) a = None" by (subst reduce.simps) simp
    thus False using assms(2) by simp
  qed
  thus ?thesis using assms by (subst find_factor.simps) simp
qed

section \<open>The part of a number inside another\<close>

subsection \<open>ppi as the largest divisor supported by b\<close>

definition supp_in :: "int \<Rightarrow> int \<Rightarrow> bool" where
  "supp_in d b \<longleftrightarrow> (\<exists>k. d dvd b ^ k)"

lemma supp_inI: "d dvd b ^ k \<Longrightarrow> supp_in d b"
  unfolding supp_in_def by blast

lemma supp_in_refl: "supp_in b b"
  by (rule supp_inI[of _ _ 1]) simp

lemma supp_in_one: "supp_in 1 b"
  by (rule supp_inI[of _ _ 0]) simp

lemma supp_in_dvd: "d dvd b \<Longrightarrow> supp_in d b"
  by (rule supp_inI[of _ _ 1]) simp

lemma supp_in_trans: "supp_in a b \<Longrightarrow> supp_in b c \<Longrightarrow> supp_in a c"
proof -
  assume "supp_in a b" "supp_in b c"
  then obtain k l where k: "a dvd b ^ k" and l: "b dvd c ^ l" unfolding supp_in_def by blast
  have "b ^ k dvd (c ^ l) ^ k" using l by (rule dvd_power_same)
  hence "a dvd c ^ (l * k)" using k by (simp add: power_mult dvd_trans)
  thus ?thesis by (rule supp_inI)
qed

lemma supp_in_dvd_left: "d' dvd d \<Longrightarrow> supp_in d b \<Longrightarrow> supp_in d' b"
  unfolding supp_in_def by (blast intro: dvd_trans)

lemma supp_in_mult: "supp_in a c \<Longrightarrow> supp_in b c \<Longrightarrow> supp_in (a * b) c"
proof -
  assume "supp_in a c" "supp_in b c"
  then obtain k l where "a dvd c ^ k" "b dvd c ^ l" unfolding supp_in_def by blast
  hence "a * b dvd c ^ k * c ^ l" by (rule mult_dvd_mono)
  thus ?thesis by (simp only: power_add[symmetric] supp_inI)
qed

lemma supp_in_mult_right: "supp_in a b \<Longrightarrow> supp_in a (b * c)"
proof -
  assume "supp_in a b"
  then obtain k where "a dvd b ^ k" unfolding supp_in_def by blast
  hence "a dvd (b * c) ^ k" by (simp add: power_mult_distrib)
  thus ?thesis by (rule supp_inI)
qed

lemma supp_in_mult_right2: "supp_in a c \<Longrightarrow> supp_in a (b * c)"
  using supp_in_mult_right[of a c b] by (simp add: mult.commute)

lemma supp_in_coprime: "supp_in d b \<Longrightarrow> coprime c b \<Longrightarrow> coprime d c"
proof -
  assume "supp_in d b" and c: "coprime c b"
  then obtain k where k: "d dvd b ^ k" unfolding supp_in_def by blast
  have "coprime (b ^ k) c" using c by (simp add: coprime_commute)
  thus ?thesis using k by (rule coprime_divisors[rotated 2]) simp
qed

lemma pos_quotient:
  fixes a d :: int
  assumes "0 < a" "0 < d" "d dvd a"
  shows "0 < a div d" and "d * (a div d) = a"
proof -
  show e: "d * (a div d) = a" using assms(3) by simp
  show "0 < a div d"
  proof (rule ccontr)
    assume "\<not> 0 < a div d"
    hence "a div d \<le> 0" by simp
    hence "d * (a div d) \<le> 0" using assms(2) by (simp add: mult_le_0_iff)
    thus False using e assms(1) by simp
  qed
qed

lemma ppi_total:
  fixes a b :: int
  assumes "0 < a" "0 < b"
  shows "\<exists>d. ppi a b = Some d \<and> ppi_ppo a b = Some (d, a div d) \<and> 0 < d \<and> d dvd a \<and>
             supp_in d b \<and> coprime (a div d) b \<and> 0 < a div d \<and> gcd a b dvd d"
proof -
  from gcd_ppi_ppo_total[OF assms]
  obtain i o' where r: "gcd_ppi_ppo a b = Some (gcd a b, i, o')" "0 < i" "0 < o'"
    "i * o' = a" "coprime i o'" "gcd a b dvd i" "\<exists>k. i dvd b ^ k" "coprime o' b"
    by blast
  have o: "a div i = o'" using r(2,4) by (metis nonzero_mult_div_cancel_left less_irrefl)
  have "i dvd a" using r(4) by (metis dvd_triv_left)
  moreover have "supp_in i b" using r(7) by (simp add: supp_in_def)
  ultimately show ?thesis using r o by (simp add: ppi_def ppi_ppo_def)
qed

lemma ppi_unique:
  fixes a b d :: int
  assumes "0 < a" "0 < b" "0 < d" "d dvd a" "supp_in d b" "coprime (a div d) b"
  shows "ppi a b = Some d" and "ppi_ppo a b = Some (d, a div d)"
proof -
  from ppi_total[OF assms(1,2)]
  obtain i where r: "ppi a b = Some i" "ppi_ppo a b = Some (i, a div i)" "0 < i" "i dvd a"
    "supp_in i b" "coprime (a div i) b" by blast
  have "coprime d (a div i)" using assms(5) r(6) by (rule supp_in_coprime)
  moreover have "d dvd i * (a div i)" using assms(4) r(4) by simp
  ultimately have di: "d dvd i" by (simp add: coprime_dvd_mult_left_iff)
  have "coprime i (a div d)" using r(5) assms(6) by (rule supp_in_coprime)
  moreover have "i dvd d * (a div d)" using assms(4) r(4) by simp
  ultimately have "i dvd d" by (simp add: coprime_dvd_mult_left_iff)
  hence "i = d" using di r(3) assms(3) by (simp add: zdvd_antisym_nonneg)
  thus "ppi a b = Some d" "ppi_ppo a b = Some (d, a div d)" using r by simp_all
qed

lemma ppi_of_supported:
  fixes a b :: int
  assumes "0 < a" "0 < b" "supp_in a b"
  shows "ppi a b = Some a"
  using assms by (intro ppi_unique) simp_all

text \<open>Restricting to the part inside \<open>x\<close> first does not change the part inside a divisor of \<open>x\<close>.\<close>

lemma ppi_ppi:
  fixes a x p b :: int
  assumes "0 < a" "0 < x" "0 < p" "supp_in p x" "ppi a x = Some b"
  shows "ppi b p = ppi a p"
proof -
  from ppi_total[OF assms(1,2)] assms(5)
  have b: "0 < b" "b dvd a" "supp_in b x" "coprime (a div b) x" "0 < a div b" by auto
  from ppi_total[OF assms(1,3)]
  obtain q where q: "ppi a p = Some q" "0 < q" "q dvd a" "supp_in q p" "coprime (a div q) p"
    by blast
  have "supp_in q x" using q(4) assms(4) by (rule supp_in_trans)
  hence "coprime q (a div b)" using b(4) by (rule supp_in_coprime)
  moreover have "q dvd b * (a div b)" using q(3) b(2) by simp
  ultimately have qb: "q dvd b" by (simp add: coprime_dvd_mult_left_iff)
  have "b div q dvd a div q" using qb b(2) q(3) by (simp add: div_dvd_div)
  hence "coprime (b div q) p" using q(5) by (rule coprime_divisors[OF _ dvd_refl])
  hence "ppi b p = Some q" using b(1) assms(3) q(2) qb q(4) by (intro ppi_unique)
  thus ?thesis using q(1) by simp
qed

lemma ppi_mult:
  fixes b x y dx dy :: int
  assumes "0 < b" "0 < x" "0 < y" "coprime x y" "ppi b x = Some dx" "ppi b y = Some dy"
  shows "ppi b (x * y) = Some (dx * dy)"
proof -
  from ppi_total[OF assms(1,2)] assms(5)
  have dx: "0 < dx" "dx dvd b" "supp_in dx x" "coprime (b div dx) x" by auto
  from ppi_total[OF assms(1,3)] assms(6)
  have dy: "0 < dy" "dy dvd b" "supp_in dy y" "coprime (b div dy) y" by auto
  have "coprime dx y" using dx(3) assms(4) by (rule supp_in_coprime[OF _ coprime_commute[THEN iffD1]])
  hence cxy: "coprime dx dy" using dy(3) by (metis supp_in_coprime coprime_commute)
  have d: "dx * dy dvd b" using dx(2) dy(2) cxy by (rule divides_mult)
  have s: "supp_in (dx * dy) (x * y)"
    using dx(3) dy(3) by (intro supp_in_mult supp_in_mult_right supp_in_mult_right2)
  from d obtain m where m: "b = dx * dy * m" by (rule dvdE)
  have q0: "b div (dx * dy) = m" using dx(1) dy(1) by (subst m) simp
  have q1: "b div dx = dy * m" using dx(1) by (subst m) (simp add: mult.assoc)
  have q2: "b div dy = dx * m" using dy(1) by (subst m) (simp add: mult.assoc mult.left_commute)
  have c1: "coprime (b div (dx * dy)) x" using dx(4) unfolding q0 q1
    by (rule coprime_divisors[rotated 2]) simp_all
  have c2: "coprime (b div (dx * dy)) y" using dy(4) unfolding q0 q2
    by (rule coprime_divisors[rotated 2]) simp_all
  show ?thesis using assms(1,2,3) dx(1) dy(1) d s c1 c2
    by (intro ppi_unique) simp_all
qed


subsection \<open>Products over a range of an array\<close>

definition range_prod :: "int list \<Rightarrow> nat \<Rightarrow> nat \<Rightarrow> int" where
  "range_prod p from to = prod_list (map (nth p) [from..<Suc to])"

lemma prod_arr_range: "from \<le> to \<Longrightarrow> to < length p \<Longrightarrow> prod_arr p from to = Some (range_prod p from to)"
  unfolding range_prod_def by (rule prod_arr_eq)

lemma range_prod_single: "range_prod p i i = p ! i"
  by (simp add: range_prod_def)

lemma range_prod_split:
  assumes "from \<le> Suc m" "m \<le> to"
  shows "range_prod p from to = range_prod p from m * range_prod p (Suc m) to"
proof -
  have "[from..<Suc m + (to - m)] = [from..<Suc m] @ [Suc m..<Suc m + (to - m)]"
    using assms(1) by (rule upt_add_eq_append)
  moreover have "Suc m + (to - m) = Suc to" using assms(2) by simp
  ultimately have "[from..<Suc to] = [from..<Suc m] @ [Suc m..<Suc to]" by (simp del: upt_Suc)
  thus ?thesis unfolding range_prod_def by (simp del: upt_Suc)
qed

lemma prod_list_pos_int: "(\<And>x. x \<in> set xs \<Longrightarrow> 0 < x) \<Longrightarrow> 0 < prod_list (xs :: int list)"
  by (induction xs) simp_all

lemma prod_list_member_dvd: "x \<in> set xs \<Longrightarrow> x dvd prod_list (xs :: int list)"
  by (induction xs) auto

lemma range_prod_pos:
  assumes "\<And>i. from \<le> i \<Longrightarrow> i \<le> to \<Longrightarrow> 0 < p ! i"
  shows "0 < range_prod p from to"
  unfolding range_prod_def using assms by (intro prod_list_pos_int) auto

lemma range_prod_dvd: "from \<le> i \<Longrightarrow> i \<le> to \<Longrightarrow> p ! i dvd range_prod p from to"
proof -
  assume "from \<le> i" "i \<le> to"
  hence "i \<in> set [from..<Suc to]" by (simp del: upt_Suc)
  hence "p ! i \<in> set (map (nth p) [from..<Suc to])" by (simp del: upt_Suc)
  thus ?thesis unfolding range_prod_def by (rule prod_list_member_dvd)
qed

lemma range_prod_coprime:
  assumes "\<And>i j. from \<le> i \<Longrightarrow> i \<le> m \<Longrightarrow> m < j \<Longrightarrow> j \<le> to \<Longrightarrow> coprime (p ! i) (p ! j)"
  shows "coprime (range_prod p from m) (range_prod p (Suc m) to)"
  unfolding range_prod_def
  by (intro prod_list_coprime_left prod_list_coprime_right) (use assms in auto)

subsection \<open>split over a pairwise coprime base\<close>

lemma halves_len:
  fixes "from" to :: nat
  assumes "from \<le> to" "to - from \<noteq> 0"
  shows "Suc (to - (to - from) div 2 - 1 - from) + Suc (to - (to - (to - from) div 2)) = Suc (to - from)"
proof -
  define d where "d = (to - from) div 2"
  have "d < to - from" unfolding d_def using assms(2) by simp
  thus ?thesis unfolding d_def[symmetric] using assms(1) by linarith
qed

lemma split_coprime:
  assumes "from \<le> to" "to < length p" "0 < a"
    and "\<And>i. from \<le> i \<Longrightarrow> i \<le> to \<Longrightarrow> 0 < p ! i"
    and "\<And>i j. from \<le> i \<Longrightarrow> i < j \<Longrightarrow> j \<le> to \<Longrightarrow> coprime (p ! i) (p ! j)"
  shows "\<exists>S. split ret a p from to = Some (ret @ S) \<and> length S = Suc (to - from) \<and>
           (\<forall>i\<le>to - from. ppi a (p ! (from + i)) = Some (S ! i)) \<and>
           ppi a (range_prod p from to) = Some (prod_list S)"
  using assms
proof (induction ret a p "from" to rule: split.induct)
  case (1 ret a p "from" to)
  let ?X = "range_prod p from to"
  have g: "\<not> (to < from \<or> length p \<le> to)" using "1.prems"(1,2) by simp
  have x: "prod_arr p from to = Some ?X" using "1.prems"(1,2) by (rule prod_arr_range)
  have Xpos: "0 < ?X" using "1.prems"(4) by (rule range_prod_pos)
  from ppi_total[OF "1.prems"(3) Xpos]
  obtain b where b: "ppi a ?X = Some b" "0 < b" "b dvd a" "supp_in b ?X" by blast
  show ?case
  proof (cases "to - from = 0")
    case True
    hence e: "to = from" using "1.prems"(1) by simp
    have "split ret a p from to = Some (ret @ [b])"
      using g x b(1) True by (subst split.simps) simp
    moreover have "ppi a (p ! from) = Some b" using b(1) e by (simp add: range_prod_single)
    ultimately show ?thesis using e b(1) by (intro exI[of _ "[b]"]) simp
  next
    case False
    let ?m = "to - (to - from) div 2 - 1"
    note h = halves[OF "1.prems"(1) False]
    have mlt: "?m < length p" using h(4) "1.prems"(2) by simp
    have posL: "\<And>i. from \<le> i \<Longrightarrow> i \<le> ?m \<Longrightarrow> 0 < p ! i" using "1.prems"(4) h(4) by simp
    let ?k = "to - (to - from) div 2"
    have posR: "\<And>i. ?k \<le> i \<Longrightarrow> i \<le> to \<Longrightarrow> 0 < p ! i" using "1.prems"(4) h(1,2) by simp
    have copL: "\<And>i j. from \<le> i \<Longrightarrow> i < j \<Longrightarrow> j \<le> ?m \<Longrightarrow> coprime (p ! i) (p ! j)"
      using "1.prems"(5) h(4) by simp
    have copR: "\<And>i j. ?k \<le> i \<Longrightarrow> i < j \<Longrightarrow> j \<le> to \<Longrightarrow> coprime (p ! i) (p ! j)"
      using "1.prems"(5) h(1,2) by simp
    from "1.IH"(1)[OF g x b(1) False h(1) mlt b(2) posL copL]
    obtain S1 where S1: "split ret b p from ?m = Some (ret @ S1)" "length S1 = Suc (?m - from)"
      "\<forall>i\<le>?m - from. ppi b (p ! (from + i)) = Some (S1 ! i)"
      "ppi b (range_prod p from ?m) = Some (prod_list S1)" by blast
    from "1.IH"(2)[OF g x b(1) False S1(1) h(3) "1.prems"(2) b(2) posR copR]
    obtain S2 where S2: "split (ret @ S1) b p ?k to = Some ((ret @ S1) @ S2)"
      "length S2 = Suc (to - ?k)"
      "\<forall>i\<le>to - ?k. ppi b (p ! (?k + i)) = Some (S2 ! i)"
      "ppi b (range_prod p ?k to) = Some (prod_list S2)" by blast
    have run: "split ret a p from to = Some (ret @ (S1 @ S2))"
      using g x b(1) False S1(1) S2(1) by (subst split.simps) simp
    have len: "length (S1 @ S2) = Suc (to - from)"
      unfolding length_append S1(2) S2(2) by (rule halves_len[OF "1.prems"(1) False])
    have ent: "\<forall>i\<le>to - from. ppi a (p ! (from + i)) = Some ((S1 @ S2) ! i)"
    proof (intro allI impI)
      fix i assume i: "i \<le> to - from"
      have pp: "0 < p ! (from + i)" using i "1.prems"(1,4) by simp
      have "p ! (from + i) dvd ?X" using i "1.prems"(1) by (intro range_prod_dvd) simp_all
      hence "supp_in (p ! (from + i)) ?X" by (rule supp_in_dvd)
      from ppi_ppi[OF "1.prems"(3) Xpos pp this b(1)]
      have eq: "ppi b (p ! (from + i)) = ppi a (p ! (from + i))" .
      show "ppi a (p ! (from + i)) = Some ((S1 @ S2) ! i)"
      proof (cases "i \<le> ?m - from")
        case True
        hence "(S1 @ S2) ! i = S1 ! i" using S1(2) by (simp add: nth_append)
        thus ?thesis using S1(3) True eq by simp
      next
        case False
        let ?j = "i - Suc (?m - from)"
        have j: "?j \<le> to - ?k" using i False h by linarith
        have ij: "?k + ?j = from + i" using False h by linarith
        have n: "(S1 @ S2) ! i = S2 ! ?j" using False S1(2) by (simp add: nth_append)
        have "ppi b (p ! (?k + ?j)) = Some (S2 ! ?j)" using S2(3) j by blast
        hence "ppi b (p ! (from + i)) = Some (S2 ! ?j)" unfolding ij .
        thus ?thesis unfolding n eq .
      qed
    qed
    have XLpos: "0 < range_prod p from ?m" using posL by (rule range_prod_pos)
    have XRpos: "0 < range_prod p ?k to" using posR by (rule range_prod_pos)
    have "coprime (range_prod p from ?m) (range_prod p (Suc ?m) to)"
      using "1.prems"(5) by (intro range_prod_coprime) simp
    hence cop: "coprime (range_prod p from ?m) (range_prod p ?k to)" unfolding h(2) .
    have "?X = range_prod p from ?m * range_prod p (Suc ?m) to"
      using h(1,4) by (intro range_prod_split) simp_all
    hence Xeq: "?X = range_prod p from ?m * range_prod p ?k to" unfolding h(2) .
    have "ppi b ?X = Some (prod_list S1 * prod_list S2)"
      unfolding Xeq using b(2) XLpos XRpos cop S1(4) S2(4) by (rule ppi_mult)
    moreover have "ppi b ?X = Some b" using b(2) Xpos b(4) by (rule ppi_of_supported)
    ultimately have "ppi a ?X = Some (prod_list (S1 @ S2))" using b(1) by simp
    thus ?thesis using run len ent by blast
  qed
qed

subsection \<open>find_factor over a pairwise coprime base\<close>

lemma find_append_case:
  "List.find P (xs @ ys) = (case List.find P xs of None \<Rightarrow> List.find P ys | Some x \<Rightarrow> Some x)"
  by (induction xs) simp_all

lemma reduce_power:
  fixes p :: int
  assumes "2 \<le> p"
  shows "\<exists>m. reduce p (p ^ e) = Some (m, 1)"
proof -
  have pos: "0 < p ^ e" using assms by simp
  from reduce_total[OF assms pos]
  obtain i c where r: "reduce p (p ^ e) = Some (i, c)" "0 \<le> i" "0 < c" "p ^ nat i * c = p ^ e"
    "\<not> p dvd c" by blast
  have p0: "p \<noteq> 0" using assms by simp
  have "c = 1"
  proof (cases "nat i \<le> e")
    case True
    hence "p ^ e = p ^ nat i * p ^ (e - nat i)" by (simp add: power_add[symmetric])
    hence "p ^ nat i * c = p ^ nat i * p ^ (e - nat i)" using r(4) by simp
    hence c: "c = p ^ (e - nat i)" using p0 by simp
    have "e - nat i = 0"
    proof (rule ccontr)
      assume "e - nat i \<noteq> 0"
      hence "p dvd p ^ (e - nat i)" by (simp add: dvd_power)
      thus False using r(5) c by simp
    qed
    thus ?thesis using c by simp
  next
    case False
    hence "p ^ nat i = p ^ e * p ^ (nat i - e)" by (simp add: power_add[symmetric])
    hence "p ^ e * (p ^ (nat i - e) * c) = p ^ e * 1" using r(4) by (simp add: mult.assoc)
    hence "p ^ (nat i - e) * c = 1" using p0 by simp
    hence "p ^ (nat i - e) dvd 1" by (metis dvd_triv_left)
    moreover have "p dvd p ^ (nat i - e)" using False by (simp add: dvd_power)
    ultimately have "p dvd 1" by (rule dvd_trans[rotated])
    thus ?thesis using assms by simp
  qed
  thus ?thesis using r(1) by blast
qed

definition range_pow :: "int list \<Rightarrow> (nat \<Rightarrow> nat) \<Rightarrow> nat \<Rightarrow> nat \<Rightarrow> int" where
  "range_pow p e from to = prod_list (map (\<lambda>i. p ! i ^ e i) [from..<Suc to])"

lemma range_pow_single: "range_pow p e i i = p ! i ^ e i"
  by (simp add: range_pow_def)

lemma range_pow_split:
  assumes "from \<le> Suc m" "m \<le> to"
  shows "range_pow p e from to = range_pow p e from m * range_pow p e (Suc m) to"
proof -
  have "[from..<Suc m + (to - m)] = [from..<Suc m] @ [Suc m..<Suc m + (to - m)]"
    using assms(1) by (rule upt_add_eq_append)
  moreover have "Suc m + (to - m) = Suc to" using assms(2) by simp
  ultimately have "[from..<Suc to] = [from..<Suc m] @ [Suc m..<Suc to]" by (simp del: upt_Suc)
  thus ?thesis unfolding range_pow_def by (simp del: upt_Suc)
qed

lemma range_pow_pos:
  assumes "\<And>i. from \<le> i \<Longrightarrow> i \<le> to \<Longrightarrow> 0 < p ! i"
  shows "0 < range_pow p e from to"
  unfolding range_pow_def using assms by (intro prod_list_pos_int) auto

lemma prod_list_supp_in: "(\<And>x. x \<in> set xs \<Longrightarrow> supp_in x c) \<Longrightarrow> supp_in (prod_list xs) c"
  by (induction xs) (simp_all add: supp_in_one supp_in_mult)

lemma supp_in_power: "supp_in a c \<Longrightarrow> supp_in (a ^ n) c"
  by (induction n) (simp_all add: supp_in_one supp_in_mult)

lemma range_pow_supp:
  "supp_in (range_pow p e from to) (range_prod p from to)"
  unfolding range_pow_def
proof (rule prod_list_supp_in)
  fix x assume "x \<in> set (map (\<lambda>i. p ! i ^ e i) [from..<Suc to])"
  then obtain i where "from \<le> i" "i < Suc to" "x = p ! i ^ e i" by (auto simp del: upt_Suc)
  hence i: "from \<le> i" "i \<le> to" "x = p ! i ^ e i" by simp_all
  have "supp_in (p ! i) (range_prod p from to)" using i(1,2) by (intro supp_in_dvd range_prod_dvd)
  thus "supp_in x (range_prod p from to)" unfolding i(3) by (rule supp_in_power)
qed

lemma range_pow_coprime:
  assumes "\<And>i j. from \<le> i \<Longrightarrow> i \<le> m \<Longrightarrow> m < j \<Longrightarrow> j \<le> to \<Longrightarrow> coprime (p ! i) (p ! j)"
  shows "coprime (range_pow p e (Suc m) to) (range_prod p from m)"
  unfolding range_pow_def range_prod_def
proof (intro prod_list_coprime_left prod_list_coprime_right)
  fix x y
  assume "x \<in> set (map (\<lambda>i. p ! i ^ e i) [Suc m..<Suc to])" "y \<in> set (map ((!) p) [from..<Suc m])"
  then obtain j i where "Suc m \<le> j" "j < Suc to" "x = p ! j ^ e j" "from \<le> i" "i < Suc m" "y = p ! i"
    by (auto simp del: upt_Suc)
  hence "m < j" "j \<le> to" "x = p ! j ^ e j" "from \<le> i" "i \<le> m" "y = p ! i" by simp_all
  thus "coprime x y" using assms[of i j] by (simp add: coprime_commute)
qed


definition emit :: "mpz_array \<Rightarrow> mpz \<Rightarrow> mpz list \<Rightarrow> (mpz_array \<times> bool) option" where
  "emit out a0 xs =
     (case List.find (\<lambda>v. v \<noteq> a0) xs of
        None \<Rightarrow> Some (out, True)
      | Some v \<Rightarrow> Some (out @ [a0, v, a0 div v], False))"

lemma find_factor_powers:
  assumes "from \<le> to" "to < length p"
    and "\<And>i. from \<le> i \<Longrightarrow> i \<le> to \<Longrightarrow> 2 \<le> p ! i"
    and "\<And>i j. from \<le> i \<Longrightarrow> i < j \<Longrightarrow> j \<le> to \<Longrightarrow> coprime (p ! i) (p ! j)"
    and "a = range_pow p e from to"
  shows "find_factor out a0 a p from to = emit out a0 (map (nth p) [from..<Suc to])"
  using assms
proof (induction out a0 a p "from" to rule: find_factor.induct)
  case (1 out a0 a p "from" to)
  have g: "\<not> (to < from \<or> length p \<le> to)" using "1.prems"(1,2) by simp
  show ?case
  proof (cases "to - from = 0")
    case True
    hence e: "to = from" using "1.prems"(1) by simp
    have p2: "2 \<le> p ! from" using "1.prems"(3)[of "from"] e by simp
    have "a = p ! from ^ e from" using "1.prems"(5) e by (simp add: range_pow_single)
    with reduce_power[OF p2, of "e from"]
    obtain m where r: "reduce (p ! from) a = Some (m, 1)" by auto
    have l: "map (nth p) [from..<Suc to] = [p ! from]" using e by simp
    have p0: "p ! from \<noteq> 0" using p2 by simp
    show ?thesis unfolding l using g True r p0
      by (subst find_factor.simps) (simp add: emit_def)
  next
    case False
    let ?m = "to - (to - from) div 2 - 1"
    let ?k = "to - (to - from) div 2"
    note h = halves[OF "1.prems"(1) False]
    have mlt: "?m < length p" using h(4) "1.prems"(2) by simp
    have pos: "\<And>i. from \<le> i \<Longrightarrow> i \<le> to \<Longrightarrow> 0 < p ! i"
      using "1.prems"(3) by force
    have posL: "\<And>i. from \<le> i \<Longrightarrow> i \<le> ?m \<Longrightarrow> 0 < p ! i" using pos h(4) by simp
    have posR: "\<And>i. ?k \<le> i \<Longrightarrow> i \<le> to \<Longrightarrow> 0 < p ! i" using pos h(1,2) by simp
    have geL: "\<And>i. from \<le> i \<Longrightarrow> i \<le> ?m \<Longrightarrow> 2 \<le> p ! i" using "1.prems"(3) h(4) by simp
    have geR: "\<And>i. ?k \<le> i \<Longrightarrow> i \<le> to \<Longrightarrow> 2 \<le> p ! i" using "1.prems"(3) h(1,2) by simp
    have copL: "\<And>i j. from \<le> i \<Longrightarrow> i < j \<Longrightarrow> j \<le> ?m \<Longrightarrow> coprime (p ! i) (p ! j)"
      using "1.prems"(4) h(4) by simp
    have copR: "\<And>i j. ?k \<le> i \<Longrightarrow> i < j \<Longrightarrow> j \<le> to \<Longrightarrow> coprime (p ! i) (p ! j)"
      using "1.prems"(4) h(1,2) by simp
    let ?XL = "range_prod p from ?m"
    let ?AL = "range_pow p e from ?m"
    let ?AR = "range_pow p e ?k to"
    have y: "prod_arr p from ?m = Some ?XL" using h(1) mlt by (rule prod_arr_range)
    have XLpos: "0 < ?XL" using posL by (rule range_prod_pos)
    have ALpos: "0 < ?AL" using posL by (rule range_pow_pos)
    have ARpos: "0 < ?AR" using posR by (rule range_pow_pos)
    have "a = ?AL * range_pow p e (Suc ?m) to"
      unfolding "1.prems"(5) using h(1,4) by (intro range_pow_split) simp_all
    hence aeq: "a = ?AL * ?AR" unfolding h(2) .
    have apos: "0 < a" unfolding aeq using ALpos ARpos by simp
    have dv: "a div ?AL = ?AR" unfolding aeq using ALpos by simp
    have "coprime (range_pow p e (Suc ?m) to) ?XL"
      using "1.prems"(4) by (intro range_pow_coprime) simp
    hence cop: "coprime (a div ?AL) ?XL" unfolding h(2) dv .
    have "ppi_ppo a ?XL = Some (?AL, a div ?AL)"
      using apos XLpos ALpos _ range_pow_supp cop by (rule ppi_unique(2)) (simp add: aeq)
    hence pp: "ppi_ppo a ?XL = Some (?AL, ?AR)" unfolding dv .
    have l: "find_factor out a0 ?AL p from ?m = emit out a0 (map (nth p) [from..<Suc ?m])"
      using "1.IH"(1)[OF g False y pp refl h(1) mlt geL copL refl] .
    have app: "map (nth p) [from..<Suc to] = map (nth p) [from..<Suc ?m] @ map (nth p) [?k..<Suc to]"
    proof -
      have "[from..<Suc ?m + (to - ?m)] = [from..<Suc ?m] @ [Suc ?m..<Suc ?m + (to - ?m)]"
        using h(1) by (intro upt_add_eq_append) simp
      moreover have "Suc ?m + (to - ?m) = Suc to" using h(4) by simp
      ultimately have "[from..<Suc to] = [from..<Suc ?m] @ [?k..<Suc to]"
        unfolding h(2) by (simp del: upt_Suc)
      thus ?thesis by (simp del: upt_Suc)
    qed
    show ?thesis
    proof (cases "List.find (\<lambda>v. v \<noteq> a0) (map (nth p) [from..<Suc ?m])")
      case (Some v)
      hence l': "find_factor out a0 ?AL p from ?m = Some (out @ [a0, v, a0 div v], False)"
        using l by (simp add: emit_def)
      have "emit out a0 (map (nth p) [from..<Suc to]) = Some (out @ [a0, v, a0 div v], False)"
        unfolding app emit_def find_append_case Some by simp
      moreover have "find_factor out a0 a p from to = Some (out @ [a0, v, a0 div v], False)"
        using g False y pp l' by (subst find_factor.simps) simp
      ultimately show ?thesis by simp
    next
      case None
      hence l': "find_factor out a0 ?AL p from ?m = Some (out, True)"
        using l by (simp add: emit_def)
      have r: "find_factor out a0 ?AR p ?k to = emit out a0 (map (nth p) [?k..<Suc to])"
        using "1.IH"(2)[OF g False y pp refl l' refl _ h(3) "1.prems"(2) geR copR refl] by simp
      have e: "emit out a0 (map (nth p) [from..<Suc to]) = emit out a0 (map (nth p) [?k..<Suc to])"
        unfolding app emit_def find_append_case None by simp
      have "find_factor out a0 a p from to =
            (case emit out a0 (map (nth p) [?k..<Suc to]) of None \<Rightarrow> None
             | Some (out2, r2) \<Rightarrow> if \<not> r2 then Some (out2, False) else Some (out2, True))"
        using g False y pp l' r by (subst find_factor.simps) (simp split: option.splits)
      also have "\<dots> = emit out a0 (map (nth p) [?k..<Suc to])"
        by (simp add: emit_def split: option.splits)
      finally show ?thesis using e by simp
    qed
  qed
qed

subsection \<open>The value 1 is never appended\<close>



















section \<open>Prime powers in positive integers\<close>

definition prime_int :: "int \<Rightarrow> bool" where
  "prime_int p \<longleftrightarrow> 1 < p \<and> (\<forall>m. 0 < m \<and> m dvd p \<longrightarrow> m = 1 \<or> m = p)"

function ord :: "int \<Rightarrow> int \<Rightarrow> nat" where
  "ord p a = (if 1 < p \<and> 0 < a \<and> p dvd a then Suc (ord p (a div p)) else 0)"
  by pat_completeness auto
termination
proof (relation "measure (\<lambda>(p, a). nat a)")
  show "wf (measure (\<lambda>(p, a). nat a))" by simp
next
  fix p a :: int
  assume "1 < p \<and> 0 < a \<and> p dvd a"
  hence "a div p < a" by (simp add: int_div_less_self)
  thus "((p, a div p), (p, a)) \<in> measure (\<lambda>(p, a). nat a)" using \<open>1 < p \<and> 0 < a \<and> p dvd a\<close> by simp
qed

declare ord.simps [simp del]

lemma ord_not_dvd: "\<not> p dvd a \<Longrightarrow> ord p a = 0"
  by (subst ord.simps) simp

lemma ord_step: "1 < p \<Longrightarrow> 0 < a \<Longrightarrow> ord p (p * a) = Suc (ord p a)"
  by (subst ord.simps) (simp add: mult_pos_pos)

lemma ord_power_mult: "1 < p \<Longrightarrow> 0 < m \<Longrightarrow> \<not> p dvd m \<Longrightarrow> ord p (p ^ k * m) = k"
proof (induction k)
  case 0
  thus ?case by (simp add: ord_not_dvd)
next
  case (Suc k)
  have "0 < p ^ k * m" using Suc.prems by simp
  hence "ord p (p * (p ^ k * m)) = Suc (ord p (p ^ k * m))" using Suc.prems(1) by (rule ord_step[rotated])
  thus ?case using Suc by (simp add: mult.assoc)
qed

lemma ord_decomp:
  assumes "1 < p" "0 < a"
  shows "\<exists>m. a = p ^ ord p a * m \<and> \<not> p dvd m \<and> 0 < m"
  using assms
proof (induction "nat a" arbitrary: a rule: less_induct)
  case less
  show ?case
  proof (cases "p dvd a")
    case False
    hence "ord p a = 0" by (rule ord_not_dvd)
    thus ?thesis using False less.prems by simp
  next
    case True
    then obtain a' where a': "a = p * a'" by (rule dvdE)
    have a'pos: "0 < a'" using less.prems a' by (simp add: zero_less_mult_iff)
    have "1 * a' < p * a'" using less.prems(1) a'pos by (intro mult_strict_right_mono) simp_all
    hence "nat a' < nat a" using a' a'pos by simp
    from less.hyps[OF this less.prems(1) a'pos]
    obtain m where m: "a' = p ^ ord p a' * m" "\<not> p dvd m" "0 < m" by blast
    have "ord p a = Suc (ord p a')" unfolding a' using less.prems(1) a'pos by (rule ord_step)
    moreover have "a = p ^ Suc (ord p a') * m" using a' m(1) by (simp add: mult.assoc)
    ultimately show ?thesis using m(2,3) by auto
  qed
qed

lemma prime_int_gt1: "prime_int p \<Longrightarrow> 1 < p"
  by (simp add: prime_int_def)

lemma prime_int_coprime:
  assumes "prime_int p" "\<not> p dvd a"
  shows "coprime p a"
proof (rule coprimeI)
  fix c assume c: "c dvd p" "c dvd a"
  have p: "0 < p" using assms(1) by (simp add: prime_int_def)
  have "\<bar>c\<bar> dvd p" using c(1) by simp
  moreover have "0 < \<bar>c\<bar>" using c(1) p by auto
  ultimately have "\<bar>c\<bar> = 1 \<or> \<bar>c\<bar> = p" using assms(1) unfolding prime_int_def by blast
  moreover have "\<bar>c\<bar> \<noteq> p"
  proof
    assume "\<bar>c\<bar> = p"
    hence "p dvd c" by (metis abs_dvd_iff dvd_refl)
    thus False using c(2) assms(2) by (blast intro: dvd_trans)
  qed
  ultimately show "is_unit c" by simp
qed

lemma prime_int_dvd_mult:
  assumes "prime_int p" "p dvd a * b"
  shows "p dvd a \<or> p dvd b"
proof (cases "p dvd a")
  case False
  hence "coprime p a" using assms(1) by (intro prime_int_coprime)
  thus ?thesis using assms(2) by (simp add: coprime_dvd_mult_right_iff)
qed simp

lemma prime_int_dvd_power: "prime_int p \<Longrightarrow> p dvd a ^ k \<Longrightarrow> p dvd a"
proof (induction k)
  case 0
  thus ?case using prime_int_gt1[of p] by simp
next
  case (Suc k)
  thus ?case using prime_int_dvd_mult[of p a "a ^ k"] by auto
qed

lemma ord_mult:
  assumes "prime_int p" "0 < a" "0 < b"
  shows "ord p (a * b) = ord p a + ord p b"
proof -
  have p: "1 < p" using assms(1) by (rule prime_int_gt1)
  from ord_decomp[OF p assms(2)] obtain m where m: "a = p ^ ord p a * m" "\<not> p dvd m" "0 < m" by blast
  from ord_decomp[OF p assms(3)] obtain n where n: "b = p ^ ord p b * n" "\<not> p dvd n" "0 < n" by blast
  have "\<not> p dvd m * n" using prime_int_dvd_mult[OF assms(1)] m(2) n(2) by blast
  moreover have "0 < m * n" using m(3) n(3) by simp
  ultimately have "ord p (p ^ (ord p a + ord p b) * (m * n)) = ord p a + ord p b"
    using p by (intro ord_power_mult)
  moreover have "a * b = p ^ (ord p a + ord p b) * (m * n)"
    by (subst m(1), subst n(1)) (simp add: power_add mult_ac)
  ultimately show ?thesis by simp
qed

lemma ord_one [simp]: "ord p 1 = 0"
  by (subst ord.simps) auto

lemma ord_pos_iff: "1 < p \<Longrightarrow> 0 < a \<Longrightarrow> 0 < ord p a \<longleftrightarrow> p dvd a"
  by (subst ord.simps) simp

lemma ord_zero_iff: "1 < p \<Longrightarrow> 0 < a \<Longrightarrow> ord p a = 0 \<longleftrightarrow> \<not> p dvd a"
  using ord_pos_iff[of p a] by auto

lemma ord_power: "prime_int p \<Longrightarrow> 0 < a \<Longrightarrow> ord p (a ^ k) = k * ord p a"
  by (induction k) (simp_all add: ord_mult)

lemma ord_prod_list:
  "prime_int p \<Longrightarrow> (\<And>x. x \<in> set xs \<Longrightarrow> 0 < x) \<Longrightarrow> ord p (prod_list xs) = sum_list (map (ord p) xs)"
proof (induction xs)
  case Nil
  thus ?case by simp
next
  case (Cons x xs)
  have "0 < prod_list xs" using Cons.prems(2) by (intro prod_list_pos_int) simp
  thus ?case using Cons by (simp add: ord_mult)
qed

lemma prime_divisor_exists:
  assumes "1 < a"
  shows "\<exists>p. prime_int p \<and> p dvd a"
  using assms
proof (induction "nat a" arbitrary: a rule: less_induct)
  case less
  show ?case
  proof (cases "prime_int a")
    case True
    thus ?thesis by auto
  next
    case False
    then obtain m where m: "0 < m" "m dvd a" "m \<noteq> 1" "m \<noteq> a"
      using less.prems unfolding prime_int_def by blast
    have "m \<le> a" using m(2) less.prems by (simp add: zdvd_imp_le)
    hence "nat m < nat a" "1 < m" using m by simp_all
    from less.hyps[OF this] obtain p where "prime_int p" "p dvd m" by blast
    thus ?thesis using m(2) by (blast intro: dvd_trans)
  qed
qed

lemma ord_dvd_mono:
  assumes "prime_int p" "0 < a" "0 < b" "a dvd b"
  shows "ord p a \<le> ord p b"
proof -
  from assms(4) obtain c where c: "b = a * c" by (rule dvdE)
  have "0 < c" using assms(2,3) c by (simp add: zero_less_mult_iff)
  thus ?thesis unfolding c using ord_mult[OF assms(1,2)] by simp
qed

lemma dvd_if_ord_le:
  assumes "0 < a" "0 < b" "\<And>p. prime_int p \<Longrightarrow> ord p a \<le> ord p b"
  shows "a dvd b"
  using assms
proof (induction "nat a" arbitrary: a b rule: less_induct)
  case less
  show ?case
  proof (cases "a = 1")
    case True
    thus ?thesis by simp
  next
    case False
    hence "1 < a" using less.prems(1) by simp
    then obtain p where p: "prime_int p" "p dvd a" using prime_divisor_exists by blast
    have p1: "1 < p" using p(1) by (rule prime_int_gt1)
    have "0 < ord p a" using p(2) p1 less.prems(1) by (simp add: ord_pos_iff)
    hence "0 < ord p b" using less.prems(3)[OF p(1)] by simp
    hence pb: "p dvd b" using p1 less.prems(2) by (simp add: ord_pos_iff)
    from p(2) obtain a' where a': "a = p * a'" by (rule dvdE)
    from pb obtain b' where b': "b = p * b'" by (rule dvdE)
    have a'pos: "0 < a'" using less.prems(1) a' p1 by (simp add: zero_less_mult_iff)
    have b'pos: "0 < b'" using less.prems(2) b' p1 by (simp add: zero_less_mult_iff)
    have "1 * a' < p * a'" using p1 a'pos by (intro mult_strict_right_mono) simp_all
    hence lt: "nat a' < nat a" using a' a'pos by simp
    have "\<And>q. prime_int q \<Longrightarrow> ord q a' \<le> ord q b'"
    proof -
      fix q assume q: "prime_int q"
      have "ord q a = ord q p + ord q a'" unfolding a' using q p1 a'pos by (intro ord_mult) simp_all
      moreover have "ord q b = ord q p + ord q b'" unfolding b' using q p1 b'pos by (intro ord_mult) simp_all
      ultimately show "ord q a' \<le> ord q b'" using less.prems(3)[OF q] by simp
    qed
    from less.hyps[OF lt a'pos b'pos this] have "a' dvd b'" .
    thus ?thesis unfolding a' b' by simp
  qed
qed

lemma dvd_iff_ord:
  "0 < a \<Longrightarrow> 0 < b \<Longrightarrow> a dvd b \<longleftrightarrow> (\<forall>p. prime_int p \<longrightarrow> ord p a \<le> ord p b)"
  using ord_dvd_mono dvd_if_ord_le by blast

lemma eq_if_ord_eq:
  assumes "0 < a" "0 < b" "\<And>p. prime_int p \<Longrightarrow> ord p a = ord p b"
  shows "a = b"
proof -
  have "a dvd b" using assms by (intro dvd_if_ord_le) simp_all
  moreover have "b dvd a" using assms by (intro dvd_if_ord_le) simp_all
  ultimately show ?thesis using assms(1,2) by (simp add: zdvd_antisym_nonneg)
qed

lemma ord_self_power: "1 < p \<Longrightarrow> ord p (p ^ k) = k"
  using ord_power_mult[of p 1 k] by (simp add: zdvd_not_zless)

lemma power_dvd_imp_le_ord:
  assumes "prime_int p" "0 < a" "p ^ k dvd a"
  shows "k \<le> ord p a"
proof -
  have p1: "1 < p" using assms(1) by (rule prime_int_gt1)
  have "ord p (p ^ k) \<le> ord p a" using assms p1 by (intro ord_dvd_mono) simp_all
  thus ?thesis using p1 by (simp add: ord_self_power)
qed

lemma power_ord_dvd: "1 < p \<Longrightarrow> 0 < a \<Longrightarrow> p ^ ord p a dvd a"
  using ord_decomp[of p a] by (metis dvd_triv_left)

lemma ord_gcd:
  assumes "prime_int p" "0 < a" "0 < b"
  shows "ord p (gcd a b) = min (ord p a) (ord p b)"
proof -
  have p1: "1 < p" using assms(1) by (rule prime_int_gt1)
  have g: "0 < gcd a b" using assms(2) by (simp add: gcd_pos_int)
  have "ord p (gcd a b) \<le> ord p a" "ord p (gcd a b) \<le> ord p b"
    using assms g by (auto intro!: ord_dvd_mono)
  moreover have "min (ord p a) (ord p b) \<le> ord p (gcd a b)"
  proof (rule power_dvd_imp_le_ord[OF assms(1) g])
    have "p ^ min (ord p a) (ord p b) dvd p ^ ord p a" by (intro le_imp_power_dvd) simp
    hence 1: "p ^ min (ord p a) (ord p b) dvd a" using power_ord_dvd[OF p1 assms(2)] by (rule dvd_trans)
    have "p ^ min (ord p a) (ord p b) dvd p ^ ord p b" by (intro le_imp_power_dvd) simp
    hence 2: "p ^ min (ord p a) (ord p b) dvd b" using power_ord_dvd[OF p1 assms(3)] by (rule dvd_trans)
    show "p ^ min (ord p a) (ord p b) dvd gcd a b" using 1 2 by simp
  qed
  ultimately show ?thesis by simp
qed

lemma ord_div:
  assumes "prime_int p" "0 < a" "0 < b" "b dvd a"
  shows "ord p (a div b) = ord p a - ord p b"
proof -
  from assms(4) obtain c where c: "a = b * c" by (rule dvdE)
  have cpos: "0 < c" using assms(2,3) c by (simp add: zero_less_mult_iff)
  have "a div b = c" unfolding c using assms(3) by simp
  moreover have "ord p a = ord p b + ord p c" unfolding c using assms(1,3) cpos by (rule ord_mult)
  ultimately show ?thesis by simp
qed

lemma eq_one_if_ord_zero:
  assumes "0 < a" "\<And>p. prime_int p \<Longrightarrow> ord p a = 0"
  shows "a = 1"
  using assms by (intro eq_if_ord_eq) simp_all

lemma ord_witness:
  assumes "0 < a" "a \<noteq> 1"
  shows "\<exists>p. prime_int p \<and> 0 < ord p a"
proof -
  have "1 < a" using assms by simp
  then obtain p where "prime_int p" "p dvd a" using prime_divisor_exists by blast
  thus ?thesis using assms(1) prime_int_gt1[of p] by (auto simp: ord_pos_iff)
qed

lemma coprime_iff_ord:
  assumes "0 < a" "0 < b"
  shows "coprime a b \<longleftrightarrow> (\<forall>p. prime_int p \<longrightarrow> ord p a = 0 \<or> ord p b = 0)"
proof
  assume c: "coprime a b"
  show "\<forall>p. prime_int p \<longrightarrow> ord p a = 0 \<or> ord p b = 0"
  proof (intro allI impI)
    fix p assume p: "prime_int p"
    hence p1: "1 < p" by (rule prime_int_gt1)
    show "ord p a = 0 \<or> ord p b = 0"
    proof (rule ccontr)
      assume "\<not> (ord p a = 0 \<or> ord p b = 0)"
      hence "p dvd a" "p dvd b" using p1 assms by (simp_all add: ord_zero_iff)
      hence "is_unit p" using c by (rule coprime_common_divisor[rotated])
      thus False using p1 by simp
    qed
  qed
next
  assume h: "\<forall>p. prime_int p \<longrightarrow> ord p a = 0 \<or> ord p b = 0"
  have g: "0 < gcd a b" using assms(1) by (simp add: gcd_pos_int)
  have "gcd a b = 1"
  proof (rule eq_one_if_ord_zero[OF g])
    fix p assume p: "prime_int p"
    thus "ord p (gcd a b) = 0" using h assms by (auto simp: ord_gcd)
  qed
  thus "coprime a b" by (simp add: coprime_iff_gcd_eq_1)
qed

lemma ord_less_self:
  assumes "prime_int p" "0 < a"
  shows "2 ^ ord p a \<le> a"
proof -
  have p1: "1 < p" using assms(1) by (rule prime_int_gt1)
  have "(2::int) ^ ord p a \<le> p ^ ord p a" using p1 by (intro power_mono) simp_all
  also have "\<dots> \<le> a" using power_ord_dvd[OF p1 assms(2)] assms(2) by (simp add: zdvd_imp_le)
  finally show ?thesis .
qed

subsection \<open>The outputs of gcd_ppi_ppo and gcd_ppg_pple, prime by prime\<close>

lemma supp_in_prime_dvd:
  assumes "prime_int p" "supp_in v b" "p dvd v"
  shows "p dvd b"
proof -
  from assms(2) obtain k where "v dvd b ^ k" unfolding supp_in_def by blast
  hence "p dvd b ^ k" using assms(3) by (blast intro: dvd_trans)
  with assms(1) show ?thesis by (rule prime_int_dvd_power)
qed

lemma supp_in_if_primes:
  assumes "0 < v" "0 < b" "\<And>p. prime_int p \<Longrightarrow> p dvd v \<Longrightarrow> p dvd b"
  shows "supp_in v b"
proof (rule supp_inI[of _ _ "nat v"])
  have bp: "0 < b ^ nat v" using assms(2) by simp
  show "v dvd b ^ nat v"
  proof (rule dvd_if_ord_le[OF assms(1) bp])
    fix p assume p: "prime_int p"
    hence p1: "1 < p" by (rule prime_int_gt1)
    show "ord p v \<le> ord p (b ^ nat v)"
    proof (cases "p dvd v")
      case False
      thus ?thesis by (simp add: ord_not_dvd)
    next
      case True
      hence "p dvd b" using p by (rule assms(3)[rotated])
      hence "1 \<le> ord p b" using p1 assms(2) ord_pos_iff[of p b] by simp
      hence "nat v * 1 \<le> nat v * ord p b" by (intro mult_le_mono2)
      hence le: "nat v \<le> nat v * ord p b" by simp
      have "ord p v \<le> nat v"
      proof -
        have "int (ord p v) < 2 ^ ord p v" by simp
        also have "\<dots> \<le> v" using p assms(1) by (rule ord_less_self)
        finally show ?thesis by simp
      qed
      hence "ord p v \<le> nat v * ord p b" using le by (rule le_trans)
      thus ?thesis using p assms(2) by (simp add: ord_power)
    qed
  qed
qed

lemma ppi_ppo_ord:
  fixes a b :: int
  assumes "0 < a" "0 < b"
  shows "\<exists>i r. ppi_ppo a b = Some (i, r) \<and> 0 < i \<and> 0 < r \<and> i * r = a \<and>
           (\<forall>p. prime_int p \<longrightarrow>
              ord p i = (if 0 < ord p b then ord p a else 0) \<and>
              ord p r = (if 0 < ord p b then 0 else ord p a))"
proof -
  from ppi_total[OF assms]
  obtain i where i: "ppi_ppo a b = Some (i, a div i)" "0 < i" "i dvd a" "supp_in i b"
    "coprime (a div i) b" "0 < a div i" by blast
  have m: "i * (a div i) = a" using i(3) by simp
  have "\<forall>p. prime_int p \<longrightarrow>
              ord p i = (if 0 < ord p b then ord p a else 0) \<and>
              ord p (a div i) = (if 0 < ord p b then 0 else ord p a)"
  proof (intro allI impI)
    fix p assume p: "prime_int p"
    hence p1: "1 < p" by (rule prime_int_gt1)
    have s: "ord p a = ord p i + ord p (a div i)"
      using ord_mult[OF p i(2,6)] m by simp
    show "ord p i = (if 0 < ord p b then ord p a else 0) \<and>
          ord p (a div i) = (if 0 < ord p b then 0 else ord p a)"
    proof (cases "0 < ord p b")
      case True
      hence "ord p (a div i) = 0"
        using coprime_iff_ord[OF i(6) assms(2)] i(5) p by auto
      thus ?thesis using True s by simp
    next
      case False
      hence "\<not> p dvd b" using p1 assms(2) by (simp add: ord_pos_iff)
      hence "\<not> p dvd i" using supp_in_prime_dvd[OF p i(4)] by blast
      hence "ord p i = 0" by (rule ord_not_dvd)
      thus ?thesis using False s by simp
    qed
  qed
  thus ?thesis using i(1,2,6) m by blast
qed

lemma gcd_ppg_pple_loop_eq:
  fixes x y :: int
  assumes "0 < x" "0 < y"
  shows "gcd_ppg_pple_loop x y = gcd_ppi_ppo_loop x y"
  using assms
proof (induction "nat y" arbitrary: x y rule: less_induct)
  case less
  let ?g = "gcd x y"
  show ?case
  proof (cases "?g = 1")
    case True
    thus ?thesis
      by (subst gcd_ppg_pple_loop.simps, subst gcd_ppi_ppo_loop.simps) simp
  next
    case False
    have gpos: "0 < ?g" using less.prems by (simp add: gcd_pos_int)
    hence g2: "2 \<le> ?g" using False by linarith
    have q: "0 < y div ?g" "?g * (y div ?g) = y" using less.prems(2) gpos by (simp_all add: pos_quotient)
    have "1 * (y div ?g) < ?g * (y div ?g)" using g2 q(1) by (intro mult_strict_right_mono) simp_all
    hence "nat (y div ?g) < nat y" using q by simp
    from less.hyps[OF this _ q(1), of "x * ?g"] less.prems gpos
    have ih: "gcd_ppg_pple_loop (x * ?g) (y div ?g) = gcd_ppi_ppo_loop (x * ?g) (y div ?g)" by simp
    have "gcd_ppg_pple_loop x y = gcd_ppg_pple_loop (x * ?g) (y div ?g)"
      using False gpos by (subst gcd_ppg_pple_loop.simps) (simp add: Let_def)
    moreover have "gcd_ppi_ppo_loop x y = gcd_ppi_ppo_loop (x * ?g) (y div ?g)"
      using False gpos by (subst gcd_ppi_ppo_loop.simps) (simp add: Let_def)
    ultimately show ?thesis using ih by simp
  qed
qed

lemma gcd_ppg_pple_ord:
  fixes a b :: int
  assumes "0 < a" "0 < b"
  shows "\<exists>h c. gcd_ppg_pple a b = Some (gcd a b, h, c) \<and> 0 < h \<and> 0 < c \<and> h * c = a \<and>
           (\<forall>p. prime_int p \<longrightarrow>
              ord p h = (if ord p b < ord p a then ord p a else 0) \<and>
              ord p c = (if ord p b < ord p a then 0 else ord p a))"
proof -
  let ?g = "gcd a b"
  have gpos: "0 < ?g" using assms by (simp add: gcd_pos_int)
  have q: "0 < a div ?g" "?g * (a div ?g) = a" using assms(1) gpos by (simp_all add: pos_quotient)
  from gcd_ppi_ppo_loop_total[OF q(1) gpos]
  obtain h c where r: "gcd_ppi_ppo_loop (a div ?g) ?g = Some (h, c)" "0 < h" "0 < c"
    "h * c = a div ?g * ?g" "coprime h c" "a div ?g dvd h" and k: "\<exists>k. h dvd (a div ?g) ^ k"
    by blast
  have hc: "h * c = a" using r(4) q(2) by (simp add: mult.commute)
  have run: "gcd_ppg_pple a b = Some (?g, h, c)"
    using gpos r(1) gcd_ppg_pple_loop_eq[OF q(1) gpos] by (simp add: gcd_ppg_pple_def)
  have sup: "supp_in h (a div ?g)" using k by (simp add: supp_in_def)
  have "\<forall>p. prime_int p \<longrightarrow>
              ord p h = (if ord p b < ord p a then ord p a else 0) \<and>
              ord p c = (if ord p b < ord p a then 0 else ord p a)"
  proof (intro allI impI)
    fix p assume p: "prime_int p"
    hence p1: "1 < p" by (rule prime_int_gt1)
    have s: "ord p a = ord p h + ord p c" using ord_mult[OF p r(2,3)] hc by simp
    have x: "ord p (a div ?g) = ord p a - min (ord p a) (ord p b)"
      using ord_div[OF p assms(1) gpos] ord_gcd[OF p assms] by simp
    show "ord p h = (if ord p b < ord p a then ord p a else 0) \<and>
          ord p c = (if ord p b < ord p a then 0 else ord p a)"
    proof (cases "ord p b < ord p a")
      case True
      hence "0 < ord p (a div ?g)" using x by simp
      hence "p dvd a div ?g" using p1 q(1) by (simp add: ord_pos_iff)
      hence "p dvd h" using r(6) by (rule dvd_trans)
      hence "0 < ord p h" using p1 r(2) by (simp add: ord_pos_iff)
      hence "ord p c = 0" using coprime_iff_ord[OF r(2,3)] r(5) p by auto
      thus ?thesis using True s by simp
    next
      case False
      hence "ord p (a div ?g) = 0" using x by simp
      hence "\<not> p dvd a div ?g" using p1 q(1) by (simp add: ord_zero_iff)
      hence "\<not> p dvd h" using supp_in_prime_dvd[OF p sup] by blast
      hence "ord p h = 0" by (rule ord_not_dvd)
      thus ?thesis using False s by simp
    qed
  qed
  thus ?thesis using run r(2,3) hc by blast
qed

lemma two_power_eq: "two_power d n = d ^ (2 ^ n)"
proof (induction d n rule: two_power.induct)
  case (1 rot n)
  show ?case
  proof (cases "n > 0")
    case True
    then obtain m where m: "n = Suc m" by (cases n) simp_all
    have "two_power rot n = two_power (rot * rot) (n - 1)" using True by (subst two_power.simps) simp
    also have "\<dots> = (rot * rot) ^ (2 ^ (n - 1))" using 1 True by simp
    also have "\<dots> = rot ^ (2 ^ n)" unfolding m by (simp add: power_mult power2_eq_square[symmetric])
    finally show ?thesis .
  next
    case False
    thus ?thesis by (subst two_power.simps) simp
  qed
qed

section \<open>Coprime bases\<close>

text \<open>\<open>factors_over B a\<close>: \<open>a\<close> is a product of powers of the elements of \<open>B\<close>.\<close>

definition factors_over :: "int list \<Rightarrow> int \<Rightarrow> bool" where
  "factors_over B a \<longleftrightarrow>
     (\<exists>es :: nat list. length es = length B \<and> a = prod_list (map2 (\<lambda>v e. v ^ e) B es))"

fun pw_coprime :: "int list \<Rightarrow> bool" where
  "pw_coprime [] = True"
| "pw_coprime (x # xs) = (list_all (coprime x) xs \<and> pw_coprime xs)"

lemma factors_over_Nil [simp]: "factors_over [] a \<longleftrightarrow> a = 1"
  by (simp add: factors_over_def)

lemma factors_over_Cons:
  "factors_over (v # B) a \<longleftrightarrow> (\<exists>e a'. a = v ^ e * a' \<and> factors_over B a')"
proof
  assume "factors_over (v # B) a"
  then obtain es :: "nat list" where es: "length es = length (v # B)"
    "a = prod_list (map2 (\<lambda>v e. v ^ e) (v # B) es)" unfolding factors_over_def by blast
  then obtain e es' where e: "es = e # es'" by (cases es) simp_all
  have "length es' = length B" "a = v ^ e * prod_list (map2 (\<lambda>v e. v ^ e) B es')"
    using es e by simp_all
  thus "\<exists>e a'. a = v ^ e * a' \<and> factors_over B a'" unfolding factors_over_def by blast
next
  assume "\<exists>e a'. a = v ^ e * a' \<and> factors_over B a'"
  then obtain e a' and es :: "nat list" where "a = v ^ e * a'" "length es = length B"
    "a' = prod_list (map2 (\<lambda>v e. v ^ e) B es)" unfolding factors_over_def by blast
  hence "length (e # es) = length (v # B) \<and> a = prod_list (map2 (\<lambda>v e. v ^ e) (v # B) (e # es))"
    by simp
  thus "factors_over (v # B) a" unfolding factors_over_def by blast
qed

lemma factors_over_one [simp]: "factors_over B 1"
proof (induction B)
  case (Cons v B)
  have "(1::int) = v ^ 0 * 1" by simp
  thus ?case using Cons unfolding factors_over_Cons by blast
qed simp

lemma factors_over_mult:
  "factors_over B a \<Longrightarrow> factors_over B b \<Longrightarrow> factors_over B (a * b)"
proof (induction B arbitrary: a b)
  case Nil
  thus ?case by simp
next
  case (Cons v B)
  from Cons.prems obtain e a' f b' where
    a: "a = v ^ e * a'" "factors_over B a'" and b: "b = v ^ f * b'" "factors_over B b'"
    unfolding factors_over_Cons by blast
  have "a * b = v ^ (e + f) * (a' * b')" unfolding a(1) b(1) by (simp add: power_add mult_ac)
  moreover have "factors_over B (a' * b')" using a(2) b(2) by (rule Cons.IH)
  ultimately show ?case unfolding factors_over_Cons by blast
qed

lemma factors_over_power: "factors_over B a \<Longrightarrow> factors_over B (a ^ n)"
  by (induction n) (simp_all add: factors_over_mult)

lemma factors_over_append:
  "factors_over (B1 @ B2) a \<longleftrightarrow> (\<exists>a1 a2. a = a1 * a2 \<and> factors_over B1 a1 \<and> factors_over B2 a2)"
proof (induction B1 arbitrary: a)
  case Nil
  show ?case by simp
next
  case (Cons v B1)
  show ?case
  proof
    assume "factors_over ((v # B1) @ B2) a"
    then obtain e a' where a: "a = v ^ e * a'" "factors_over (B1 @ B2) a'"
      by (auto simp: factors_over_Cons)
    then obtain a1 a2 where s: "a' = a1 * a2" "factors_over B1 a1" "factors_over B2 a2"
      using Cons.IH by blast
    have "a = (v ^ e * a1) * a2" using a(1) s(1) by (simp add: mult.assoc)
    moreover have "factors_over (v # B1) (v ^ e * a1)" using s(2) unfolding factors_over_Cons by blast
    ultimately show "\<exists>a1 a2. a = a1 * a2 \<and> factors_over (v # B1) a1 \<and> factors_over B2 a2"
      using s(3) by blast
  next
    assume "\<exists>a1 a2. a = a1 * a2 \<and> factors_over (v # B1) a1 \<and> factors_over B2 a2"
    then obtain a1 a2 e a1' where s: "a = a1 * a2" "a1 = v ^ e * a1'" "factors_over B1 a1'"
      "factors_over B2 a2" unfolding factors_over_Cons by blast
    have "factors_over (B1 @ B2) (a1' * a2)" using s(3,4) Cons.IH by blast
    moreover have "a = v ^ e * (a1' * a2)" using s(1,2) by (simp add: mult.assoc)
    ultimately show "factors_over ((v # B1) @ B2) a" by (auto simp: factors_over_Cons)
  qed
qed

lemma factors_over_appendI1: "factors_over B1 a \<Longrightarrow> factors_over (B1 @ B2) a"
  unfolding factors_over_append using factors_over_one[of B2] by (metis mult.right_neutral)

lemma factors_over_appendI2: "factors_over B2 a \<Longrightarrow> factors_over (B1 @ B2) a"
  unfolding factors_over_append using factors_over_one[of B1] by (metis mult.left_neutral)

lemma factors_over_single: "factors_over [v] v"
proof -
  have "v = v ^ 1 * 1" by simp
  thus ?thesis unfolding factors_over_Cons by (metis factors_over_Nil)
qed

lemma factors_over_elem: "v \<in> set B \<Longrightarrow> factors_over B v"
proof (induction B)
  case Nil
  thus ?case by simp
next
  case (Cons w B)
  show ?case
  proof (cases "v = w")
    case True
    have "v = w ^ 1 * 1" using True by simp
    thus ?thesis unfolding factors_over_Cons using factors_over_one by blast
  next
    case False
    hence "factors_over B v" using Cons by simp
    moreover have "v = w ^ 0 * v" by simp
    ultimately show ?thesis unfolding factors_over_Cons by blast
  qed
qed

lemma factors_over_trans:
  "(\<And>v. v \<in> set B \<Longrightarrow> factors_over B' v) \<Longrightarrow> factors_over B a \<Longrightarrow> factors_over B' a"
proof (induction B arbitrary: a)
  case Nil
  thus ?case by simp
next
  case (Cons v B)
  from Cons.prems(2) obtain e a' where a: "a = v ^ e * a'" "factors_over B a'"
    unfolding factors_over_Cons by blast
  have "factors_over B' a'" using Cons.prems(1) a(2) by (rule Cons.IH) simp_all
  moreover have "factors_over B' (v ^ e)" using Cons.prems(1) by (rule factors_over_power) simp
  ultimately show ?case unfolding a(1) by (intro factors_over_mult)
qed

lemma factors_over_pos: "(\<And>v. v \<in> set B \<Longrightarrow> 0 < v) \<Longrightarrow> factors_over B a \<Longrightarrow> 0 < a"
proof (induction B arbitrary: a)
  case Nil
  thus ?case by simp
next
  case (Cons v B)
  from Cons.prems(2) obtain e a' where a: "a = v ^ e * a'" "factors_over B a'"
    unfolding factors_over_Cons by blast
  have "0 < a'" using Cons.prems(1) a(2) by (rule Cons.IH) simp_all
  moreover have "0 < v ^ e" using Cons.prems(1) by simp
  ultimately show ?case unfolding a(1) by simp
qed

lemma factors_over_coprime:
  "(\<And>v. v \<in> set B \<Longrightarrow> coprime v c) \<Longrightarrow> factors_over B a \<Longrightarrow> coprime a c"
proof (induction B arbitrary: a)
  case Nil
  thus ?case by simp
next
  case (Cons v B)
  from Cons.prems(2) obtain e a' where a: "a = v ^ e * a'" "factors_over B a'"
    unfolding factors_over_Cons by blast
  have "coprime a' c" using Cons.prems(1) a(2) by (rule Cons.IH) simp_all
  moreover have "coprime (v ^ e) c" using Cons.prems(1) by simp
  ultimately show ?case unfolding a(1) by simp
qed

lemma factors_over_supp:
  "(\<And>v. v \<in> set B \<Longrightarrow> supp_in v X) \<Longrightarrow> factors_over B a \<Longrightarrow> supp_in a X"
proof (induction B arbitrary: a)
  case Nil
  thus ?case by (simp add: supp_in_one)
next
  case (Cons v B)
  from Cons.prems(2) obtain e a' where a: "a = v ^ e * a'" "factors_over B a'"
    unfolding factors_over_Cons by blast
  have "supp_in a' X" using Cons.prems(1) a(2) by (rule Cons.IH) simp_all
  moreover have "supp_in (v ^ e) X" using Cons.prems(1) by (rule supp_in_power) simp
  ultimately show ?case unfolding a(1) by (intro supp_in_mult)
qed

lemma coprime_ord_zero:
  assumes "prime_int p" "0 < a" "0 < b" "coprime a b"
  shows "ord p a = 0 \<or> ord p b = 0"
  using coprime_iff_ord[OF assms(2,3), THEN iffD1, OF assms(4)] assms(1) by simp

lemma coprime_if_ord:
  assumes "0 < a" "0 < b" "\<And>p. prime_int p \<Longrightarrow> ord p a = 0 \<or> ord p b = 0"
  shows "coprime a b"
  using coprime_iff_ord[OF assms(1,2), THEN iffD2] assms(3) by simp

lemma gcd_coprime_parts:
  fixes A B a' b' :: int
  assumes pos: "0 < A" "0 < B" "0 < a'" "0 < b'"
    and cop: "coprime A a'" "coprime A b'" "coprime B a'" "coprime B b'"
  shows "gcd (A * a') (B * b') = gcd A B * gcd a' b'"
proof (rule eq_if_ord_eq)
  show "0 < gcd (A * a') (B * b')" using pos by (simp add: gcd_pos_int)
  show "0 < gcd A B * gcd a' b'" using pos by (simp add: gcd_pos_int)
  fix p assume p: "prime_int p"
  have g1: "0 < gcd A B" and g2: "0 < gcd a' b'" using pos by (simp_all add: gcd_pos_int)
  have l: "ord p (gcd (A * a') (B * b')) = min (ord p A + ord p a') (ord p B + ord p b')"
    using p pos by (simp add: ord_gcd ord_mult)
  have r: "ord p (gcd A B * gcd a' b') = min (ord p A) (ord p B) + min (ord p a') (ord p b')"
    using p pos g1 g2 by (simp add: ord_gcd ord_mult)
  have c1: "ord p A = 0 \<or> ord p a' = 0" using p pos(1,3) cop(1) by (rule coprime_ord_zero)
  have c2: "ord p A = 0 \<or> ord p b' = 0" using p pos(1,4) cop(2) by (rule coprime_ord_zero)
  have c3: "ord p B = 0 \<or> ord p a' = 0" using p pos(2,3) cop(3) by (rule coprime_ord_zero)
  have c4: "ord p B = 0 \<or> ord p b' = 0" using p pos(2,4) cop(4) by (rule coprime_ord_zero)
  show "ord p (gcd (A * a') (B * b')) = ord p (gcd A B * gcd a' b')"
    unfolding l r using c1 c2 c3 c4 by auto
qed

lemma gcd_power_same:
  fixes v :: int
  assumes "0 < v"
  shows "gcd (v ^ e) (v ^ f) = v ^ min e f"
proof (cases "e \<le> f")
  case True
  hence "v ^ e dvd v ^ f" by (rule le_imp_power_dvd)
  hence "gcd (v ^ e) (v ^ f) = \<bar>v ^ e\<bar>" by (simp add: gcd_proj1_iff)
  thus ?thesis using True assms by (simp add: min_def)
next
  case False
  hence "v ^ f dvd v ^ e" by (intro le_imp_power_dvd) simp
  hence "gcd (v ^ e) (v ^ f) = \<bar>v ^ f\<bar>" by (simp add: gcd_proj2_iff)
  thus ?thesis using False assms by (simp add: min_def)
qed

lemma factors_over_gcd:
  assumes "pw_coprime B" "\<And>v. v \<in> set B \<Longrightarrow> 0 < v" "factors_over B a" "factors_over B b"
  shows "factors_over B (gcd a b)"
  using assms
proof (induction B arbitrary: a b)
  case Nil
  thus ?case by simp
next
  case (Cons v B)
  from Cons.prems(3) obtain e a' where a: "a = v ^ e * a'" "factors_over B a'"
    unfolding factors_over_Cons by blast
  from Cons.prems(4) obtain f b' where b: "b = v ^ f * b'" "factors_over B b'"
    unfolding factors_over_Cons by blast
  have pw: "pw_coprime B" and cv: "\<And>w. w \<in> set B \<Longrightarrow> coprime w v"
    using Cons.prems(1) by (auto simp: list_all_iff coprime_commute)
  have posB: "\<And>w. w \<in> set B \<Longrightarrow> 0 < w" and vpos: "0 < v" using Cons.prems(2) by simp_all
  have a'pos: "0 < a'" using posB a(2) by (rule factors_over_pos)
  have b'pos: "0 < b'" using posB b(2) by (rule factors_over_pos)
  have ca: "coprime a' v" using cv a(2) by (rule factors_over_coprime)
  have cb: "coprime b' v" using cv b(2) by (rule factors_over_coprime)
  have "gcd a b = gcd (v ^ e) (v ^ f) * gcd a' b'"
    unfolding a(1) b(1) using vpos a'pos b'pos ca cb
    by (intro gcd_coprime_parts) (simp_all add: coprime_commute)
  hence "gcd a b = v ^ min e f * gcd a' b'" using vpos by (simp add: gcd_power_same)
  moreover have "factors_over B (gcd a' b')" using pw posB a(2) b(2) by (rule Cons.IH)
  ultimately show ?case unfolding factors_over_Cons by blast
qed

lemma pw_coprime_append:
  "pw_coprime (xs @ ys) \<longleftrightarrow>
     pw_coprime xs \<and> pw_coprime ys \<and> (\<forall>x\<in>set xs. \<forall>y\<in>set ys. coprime x y)"
  by (induction xs) (auto simp: list_all_iff)

lemma pw_coprime_nth:
  "pw_coprime xs \<Longrightarrow> i < j \<Longrightarrow> j < length xs \<Longrightarrow> coprime (xs ! i) (xs ! j)"
proof (induction xs arbitrary: i j)
  case Nil
  thus ?case by simp
next
  case (Cons x xs)
  show ?case
  proof (cases i)
    case 0
    then obtain j' where "j = Suc j'" using Cons.prems(2) by (cases j) simp_all
    thus ?thesis using 0 Cons.prems by (auto simp: list_all_iff)
  next
    case (Suc i')
    then obtain j' where "j = Suc j'" using Cons.prems(2) by (cases j) simp_all
    thus ?thesis using Suc Cons.prems Cons.IH[of i' j'] by simp
  qed
qed

lemma pw_coprime_if_nth:
  "(\<And>i j. i < j \<Longrightarrow> j < length xs \<Longrightarrow> coprime (xs ! i) (xs ! j)) \<Longrightarrow> pw_coprime xs"
proof (induction xs)
  case Nil
  show ?case by simp
next
  case (Cons x xs)
  have "list_all (coprime x) xs" unfolding list_all_iff
  proof
    fix y assume "y \<in> set xs"
    then obtain j where "j < length xs" "xs ! j = y" by (auto simp: in_set_conv_nth)
    thus "coprime x y" using Cons.prems[of 0 "Suc j"] by simp
  qed
  moreover have "pw_coprime xs"
  proof (rule Cons.IH)
    fix i j assume "i < j" "j < length xs"
    thus "coprime (xs ! i) (xs ! j)" using Cons.prems[of "Suc i" "Suc j"] by simp
  qed
  ultimately show ?case by simp
qed

subsection \<open>append_cb\<close>

text \<open>What \<open>append_cb(out, a, b)\<close> must append: a coprime base for \<open>{a, b}\<close> built from the primes of \<open>a * b\<close>.\<close>

definition cb_pair :: "int \<Rightarrow> int \<Rightarrow> int list \<Rightarrow> bool" where
  "cb_pair a b L \<longleftrightarrow>
     list_all (\<lambda>v. 1 < v) L \<and> pw_coprime L \<and> factors_over L a \<and> factors_over L b \<and>
     list_all (\<lambda>v. supp_in v (a * b)) L"

lemma append_cb_call_unfold:
  assumes "b \<noteq> 1" "ppi_ppo a b = Some (a1, r)" "gcd_ppg_pple a1 b = Some (g, h, c)"
  shows "append_cb out a b =
         append_cb_frame (if r \<noteq> 1 then out @ [r] else out) (Acb_loop b c g h c 1)"
  unfolding append_cb_def using assms by (subst append_cb_frame.simps) simp

lemma append_cb_loop_unfold:
  assumes "gcd_ppg_pple h (g * g) = Some (g', h', c)" "two_power (gcd c b) (n - 1) \<noteq> 0"
  shows "append_cb_frame out (Acb_loop b c0 g h x n) =
     do { out' \<leftarrow> append_cb out (c div two_power (gcd c b) (n - 1)) (gcd c b);
          if h' = 1 then do { b1' \<leftarrow> mpz_fdiv_q b (x * gcd c b); append_cb out' b1' c0 }
          else append_cb_frame out' (Acb_loop b c0 g' h' (x * gcd c b) (n + 1)) }"
  unfolding append_cb_def using assms by (subst append_cb_frame.simps) (simp add: Let_def)

lemma append_cb_base:
  assumes "0 < a"
  shows "\<exists>L. append_cb out a 1 = Some (out @ L) \<and> cb_pair a 1 L"
proof (cases "a = 1")
  case True
  hence "append_cb out a 1 = Some (out @ [])" by (simp add: append_cb_one)
  moreover have "cb_pair a 1 []" using True by (simp add: cb_pair_def)
  ultimately show ?thesis by blast
next
  case False
  hence "append_cb out a 1 = Some (out @ [a])" by (simp add: append_cb_one)
  moreover have "cb_pair a 1 [a]"
    using False assms by (simp add: cb_pair_def factors_over_single supp_in_refl)
  ultimately show ?thesis by blast
qed

text \<open>
  One round of the loop, for one prime: \<open>E\<close> and \<open>F\<close> are the exponents of the prime in
  \<open>a1 = ppi(a, b)\<close> and in \<open>b\<close>, \<open>T\<close> is \<open>2^(n-1) * F\<close>, and \<open>og\<close>, \<open>oh\<close>, \<open>ox\<close> are its
  exponents in \<open>g\<close>, \<open>h\<close>, \<open>x\<close> at the head of round \<open>n\<close>.
\<close>

lemma acb_round_exponents:
  fixes E F K T og oh ox :: nat
  assumes KF: "K * F = T" and FT: "F \<le> T" "0 < F \<longrightarrow> 0 < T" and EF: "0 < E \<longrightarrow> 0 < F"
    and inv: "if T < E then oh = E \<and> og = T \<and> ox = 0 else oh = 0 \<and> ox = min E F"
    and h': "oh' = (if 2 * og < oh then oh else 0)"
    and c: "oc = (if 2 * og < oh then 0 else oh)"
    and g': "og' = min oh (2 * og)"
    and d: "od = min oc F"
    and x': "ox' = ox + od"
    and y: "oy = K * od"
    and c0: "oc0 = (if F < E then 0 else E)"
  shows "if 2 * T < E then oh' = E \<and> og' = 2 * T \<and> ox' = 0 else oh' = 0 \<and> ox' = min E F"
    and "oy \<le> oc"
    and "oc \<le> E"
    and "ox' \<le> F"
    and "0 < oc - oy \<or> 0 < od \<longrightarrow> 0 < F \<and> T < E \<and> E \<le> 2 * T"
    and "oc0 \<le> ox' \<or> 2 * T < E"
    and "0 < F - ox' \<or> 0 < oc0 \<longrightarrow> 0 < F \<and> (E \<le> F \<or> 2 * T < E)"
    and "od = 0 \<or> od = F"
  using assms by (auto simp: min_def split: if_splits)


definition acb_inv :: "int \<Rightarrow> int \<Rightarrow> nat \<Rightarrow> int \<Rightarrow> int \<Rightarrow> int \<Rightarrow> bool" where
  "acb_inv a1 b K g h x \<longleftrightarrow>
     0 < g \<and> 0 < h \<and> 0 < x \<and>
     (\<forall>p. prime_int p \<longrightarrow>
        (if K * ord p b < ord p a1 then ord p h = ord p a1 \<and> ord p g = K * ord p b \<and> ord p x = 0
         else ord p h = 0 \<and> ord p x = min (ord p a1) (ord p b)))"

definition acb_supp :: "int \<Rightarrow> int \<Rightarrow> nat \<Rightarrow> int list \<Rightarrow> bool" where
  "acb_supp a1 b K L \<longleftrightarrow>
     (\<forall>v\<in>set L. \<forall>p. prime_int p \<and> p dvd v \<longrightarrow>
        0 < ord p b \<and> (ord p a1 \<le> ord p b \<or> K * ord p b < ord p a1))"

lemma acb_loop_correct:
  fixes a1 b c0 N :: int
  assumes pos: "0 < a1" "0 < b"
    and sup: "\<And>p. prime_int p \<Longrightarrow> 0 < ord p a1 \<longrightarrow> 0 < ord p b"
    and c0: "0 < c0" "\<And>p. prime_int p \<Longrightarrow> ord p c0 = (if ord p b < ord p a1 then 0 else ord p a1)"
    and IH: "\<And>a' b' out. 0 < a' \<Longrightarrow> 0 < b' \<Longrightarrow> a' * b' < N \<Longrightarrow>
               \<exists>L. append_cb out a' b' = Some (out @ L) \<and> cb_pair a' b' L"
    and N: "a1 < N" "c0 \<noteq> 1 \<Longrightarrow> b < N"
    and n: "1 \<le> n" and inv: "acb_inv a1 b (2 ^ (n - 1)) g h x"
  shows "\<exists>L. append_cb_frame out (Acb_loop b c0 g h x n) = Some (out @ L) \<and>
           list_all (\<lambda>v. 1 < v) L \<and> pw_coprime L \<and> factors_over L h \<and> factors_over L c0 \<and>
           factors_over L (b div x) \<and> acb_supp a1 b (2 ^ (n - 1)) L"
  using n inv
proof (induction "nat a1 - n" arbitrary: n g h x out rule: less_induct)
  case less
  define K :: nat where "K = 2 ^ (n - 1)"
  have K1: "1 \<le> K" unfolding K_def by simp
  have K2: "(2::nat) ^ (n + 1 - 1) = 2 * K" unfolding K_def using less.prems(1) by (cases n) simp_all
  have nK: "n < 2 * K" unfolding K2[symmetric] by simp
  have gp: "0 < g" and hp: "0 < h" and xp: "0 < x"
    and invp: "\<And>p. prime_int p \<Longrightarrow>
        (if K * ord p b < ord p a1 then ord p h = ord p a1 \<and> ord p g = K * ord p b \<and> ord p x = 0
         else ord p h = 0 \<and> ord p x = min (ord p a1) (ord p b))"
    using less.prems(2) unfolding acb_inv_def K_def by blast+
  have ggp: "0 < g * g" using gp by simp
  from gcd_ppg_pple_ord[OF hp ggp]
  obtain h' c where run1: "gcd_ppg_pple h (g * g) = Some (gcd h (g * g), h', c)"
    and h'p: "0 < h'" and cp: "0 < c" and hc: "h' * c = h"
    and oh: "\<And>p. prime_int p \<Longrightarrow>
              ord p h' = (if ord p (g * g) < ord p h then ord p h else 0) \<and>
              ord p c = (if ord p (g * g) < ord p h then 0 else ord p h)"
    by blast
  define g' where "g' = gcd h (g * g)"
  define d where "d = gcd c b"
  define y where "y = two_power d (n - 1)"
  define x' where "x' = x * d"
  have g'p: "0 < g'" unfolding g'_def using hp by (simp add: gcd_pos_int)
  have dp: "0 < d" unfolding d_def using cp by (simp add: gcd_pos_int)
  have yK: "y = d ^ K" unfolding y_def K_def by (rule two_power_eq)
  have yp: "0 < y" unfolding yK using dp by simp
  have x'p: "0 < x'" unfolding x'_def using xp dp by simp
  {
    fix p assume p: "prime_int p"
    have e1: "K * ord p b = K * ord p b" ..
    have e2: "ord p b \<le> K * ord p b" using K1 by simp
    have e3: "0 < ord p b \<longrightarrow> 0 < K * ord p b" using K1 by simp
    have gg: "ord p (g * g) = 2 * ord p g" using p gp by (simp add: ord_mult)
    have e5: "ord p h' = (if 2 * ord p g < ord p h then ord p h else 0)"
      using oh[OF p] gg by simp
    have e6: "ord p c = (if 2 * ord p g < ord p h then 0 else ord p h)"
      using oh[OF p] gg by simp
    have e7: "ord p g' = min (ord p h) (2 * ord p g)"
      unfolding g'_def using p hp ggp gg by (simp add: ord_gcd)
    have e8: "ord p d = min (ord p c) (ord p b)"
      unfolding d_def using p cp pos(2) by (simp add: ord_gcd)
    have e9: "ord p x' = ord p x + ord p d"
      unfolding x'_def using p xp dp by (simp add: ord_mult)
    have e10: "ord p y = K * ord p d" unfolding yK using p dp by (simp add: ord_power)
    note acb_round_exponents[OF e1 e2 e3 sup[OF p] invp[OF p] e5 e6 e7 e8 e9 e10 c0(2)[OF p]]
  }
  note rnd = this
  have ydc: "y dvd c" using yp cp rnd(2) by (rule dvd_if_ord_le)
  define q where "q = c div y"
  have qp: "0 < q" and yq: "y * q = c" unfolding q_def using cp yp ydc by (rule pos_quotient)+
  have oq: "\<And>p. prime_int p \<Longrightarrow> ord p q = ord p c - ord p y"
    unfolding q_def using cp yp ydc by (rule ord_div[rotated])
  have "c dvd a1" using cp pos(1) rnd(3) by (rule dvd_if_ord_le)
  hence ca: "c \<le> a1" using pos(1) by (rule zdvd_imp_le)
  have "d dvd y"
  proof -
    obtain K' where "K = Suc K'" using K1 by (cases K) simp_all
    thus ?thesis unfolding yK by simp
  qed
  hence "d \<le> y" using yp by (rule zdvd_imp_le)
  hence "q * d \<le> q * y" using qp by (intro mult_left_mono) simp_all
  hence "q * d \<le> c" using yq by (simp add: mult.commute)
  hence qdN: "q * d < N" using ca N(1) by simp
  from IH[OF qp dp qdN, of out]
  obtain L1 where L1: "append_cb out q d = Some (out @ L1)" "cb_pair q d L1" by blast
  have L1gt: "list_all (\<lambda>v. 1 < v) L1" and L1pw: "pw_coprime L1"
    and L1q: "factors_over L1 q" and L1d: "factors_over L1 d"
    and L1s: "list_all (\<lambda>v. supp_in v (q * d)) L1"
    using L1(2) unfolding cb_pair_def by blast+
  have L1supp: "\<And>v p. v \<in> set L1 \<Longrightarrow> prime_int p \<Longrightarrow> p dvd v \<Longrightarrow>
      0 < ord p b \<and> K * ord p b < ord p a1 \<and> ord p a1 \<le> 2 * (K * ord p b)"
  proof -
    fix v p assume v: "v \<in> set L1" and p: "prime_int p" and pv: "p dvd v"
    have p1: "1 < p" using p by (rule prime_int_gt1)
    have sv: "supp_in v (q * d)" using L1s v by (simp add: list_all_iff)
    have "p dvd q * d" using p sv pv by (rule supp_in_prime_dvd)
    with p have "p dvd q \<or> p dvd d" by (rule prime_int_dvd_mult)
    hence "0 < ord p q \<or> 0 < ord p d" using p1 qp dp by (simp add: ord_pos_iff)
    hence "0 < ord p c - ord p y \<or> 0 < ord p d" using oq[OF p] by simp
    thus "0 < ord p b \<and> K * ord p b < ord p a1 \<and> ord p a1 \<le> 2 * (K * ord p b)"
      using rnd(5)[OF p] by blast
  qed
  have x'b: "x' dvd b" using x'p pos(2) rnd(4) by (rule dvd_if_ord_le)
  define t where "t = b div x'"
  have tp: "0 < t" and xt: "x' * t = b" unfolding t_def using pos(2) x'p x'b by (rule pos_quotient)+
  have ot: "\<And>p. prime_int p \<Longrightarrow> ord p t = ord p b - ord p x'"
    unfolding t_def using pos(2) x'p x'b by (rule ord_div[rotated])
  have bx: "b div x = t * d"
  proof -
    have "b = x * (t * d)" using xt unfolding x'_def by (simp add: mult_ac)
    thus ?thesis using xp by simp
  qed
  have ynz: "two_power (gcd c b) (n - 1) \<noteq> 0" using yp unfolding y_def d_def by simp
  have unf: "append_cb_frame out (Acb_loop b c0 g h x n) =
     (if h' = 1 then append_cb (out @ L1) t c0
      else append_cb_frame (out @ L1) (Acb_loop b c0 g' h' x' (n + 1)))"
  proof -
    have "x' \<noteq> 0" using x'p by simp
    hence "x * gcd c b \<noteq> 0" unfolding x'_def d_def .
    thus ?thesis
      using append_cb_loop_unfold[OF run1 ynz, of out c0 x] L1(1)
      unfolding q_def y_def d_def x'_def t_def g'_def by simp
  qed
  have combine: "\<exists>L. Some (out @ L1 @ Lr) = Some (out @ L) \<and>
           list_all (\<lambda>v. 1 < v) L \<and> pw_coprime L \<and> factors_over L h \<and> factors_over L c0 \<and>
           factors_over L (b div x) \<and> acb_supp a1 b (2 ^ (n - 1)) L"
    if Lr: "list_all (\<lambda>v. 1 < v) Lr" "pw_coprime Lr" "factors_over Lr h'" "factors_over Lr c0"
      "factors_over Lr t" "acb_supp a1 b (2 * K) Lr" for Lr
  proof -
    have gt: "list_all (\<lambda>v. 1 < v) (L1 @ Lr)" using L1gt Lr(1) by simp
    have cross: "\<forall>v\<in>set L1. \<forall>w\<in>set Lr. coprime v w"
    proof (intro ballI)
      fix v w assume v: "v \<in> set L1" and w: "w \<in> set Lr"
      have vp: "0 < v" using L1gt v by (auto simp: list_all_iff)
      have wp: "0 < w" using Lr(1) w by (auto simp: list_all_iff)
      show "coprime v w"
      proof (rule coprime_if_ord[OF vp wp])
        fix p assume p: "prime_int p"
        have p1: "1 < p" using p by (rule prime_int_gt1)
        show "ord p v = 0 \<or> ord p w = 0"
        proof (rule ccontr)
          assume "\<not> (ord p v = 0 \<or> ord p w = 0)"
          hence pv: "p dvd v" and pw: "p dvd w" using p1 vp wp by (simp_all add: ord_zero_iff)
          define T where "T = K * ord p b"
          have T2: "2 * K * ord p b = 2 * T" unfolding T_def by simp
          have FT: "ord p b \<le> T" unfolding T_def using K1 by simp
          have 1: "0 < ord p b \<and> T < ord p a1 \<and> ord p a1 \<le> 2 * T"
            unfolding T_def using v p pv by (rule L1supp)
          have "ord p a1 \<le> ord p b \<or> 2 * K * ord p b < ord p a1"
            using Lr(6) w p pw unfolding acb_supp_def by blast
          hence 2: "ord p a1 \<le> ord p b \<or> 2 * T < ord p a1" unfolding T2 .
          show False using 1 2 FT by linarith
        qed
      qed
    qed
    have pw: "pw_coprime (L1 @ Lr)" unfolding pw_coprime_append using L1pw Lr(2) cross by blast
    have "factors_over L1 (q * d ^ K)" using L1q L1d by (intro factors_over_mult factors_over_power)
    hence "factors_over L1 c" using yq unfolding yK by (simp add: mult.commute)
    hence "factors_over (L1 @ Lr) (c * h')"
      using Lr(3) by (intro factors_over_mult factors_over_appendI1 factors_over_appendI2)
    hence fh: "factors_over (L1 @ Lr) h" using hc by (simp add: mult.commute)
    have fc0: "factors_over (L1 @ Lr) c0" using Lr(4) by (rule factors_over_appendI2)
    have "factors_over (L1 @ Lr) (d * t)"
      using L1d Lr(5) by (intro factors_over_mult factors_over_appendI1 factors_over_appendI2)
    hence fb: "factors_over (L1 @ Lr) (b div x)" unfolding bx by (simp add: mult.commute)
    have sp: "acb_supp a1 b (2 ^ (n - 1)) (L1 @ Lr)"
      unfolding acb_supp_def K_def[symmetric]
    proof (intro ballI allI impI)
      fix v p assume v: "v \<in> set (L1 @ Lr)" and p: "prime_int p \<and> p dvd v"
      show "0 < ord p b \<and> (ord p a1 \<le> ord p b \<or> K * ord p b < ord p a1)"
      proof (cases "v \<in> set L1")
        case True
        thus ?thesis using L1supp[of v p] p by blast
      next
        case False
        hence "v \<in> set Lr" using v by simp
        hence "0 < ord p b \<and> (ord p a1 \<le> ord p b \<or> 2 * K * ord p b < ord p a1)"
          using Lr(6) p unfolding acb_supp_def by blast
        moreover have "K * ord p b \<le> 2 * K * ord p b" by simp
        ultimately show ?thesis by linarith
      qed
    qed
    show ?thesis using gt pw fh fc0 fb sp by (intro exI[of _ "L1 @ Lr"]) simp
  qed
  show ?case
  proof (cases "h' = 1")
    case True
    have no: "\<And>p. prime_int p \<Longrightarrow> \<not> 2 * (K * ord p b) < ord p a1"
    proof
      fix p assume p: "prime_int p" and lt: "2 * (K * ord p b) < ord p a1"
      have "ord p h' = ord p a1" using rnd(1)[OF p] lt by simp
      thus False using True lt by simp
    qed
    have "c0 dvd x'"
    proof (rule dvd_if_ord_le[OF c0(1) x'p])
      fix p assume p: "prime_int p"
      show "ord p c0 \<le> ord p x'" using rnd(6)[OF p] no[OF p] by blast
    qed
    hence "c0 \<le> x'" using x'p by (rule zdvd_imp_le)
    hence "t * c0 \<le> t * x'" using tp by (intro mult_left_mono) simp_all
    hence tc: "t * c0 \<le> b" using xt by (simp add: mult.commute)
    have "\<exists>L2. append_cb (out @ L1) t c0 = Some ((out @ L1) @ L2) \<and> cb_pair t c0 L2"
    proof (cases "c0 = 1")
      case True
      from append_cb_base[OF tp, of "out @ L1"]
      obtain L2 where "append_cb (out @ L1) t 1 = Some ((out @ L1) @ L2)" "cb_pair t 1 L2" by blast
      thus ?thesis unfolding True by blast
    next
      case False
      hence "t * c0 < N" using N(2) tc by simp
      from IH[OF tp c0(1) this, of "out @ L1"] show ?thesis .
    qed
    then obtain L2 where L2: "append_cb (out @ L1) t c0 = Some ((out @ L1) @ L2)" "cb_pair t c0 L2"
      by blast
    have L2gt: "list_all (\<lambda>v. 1 < v) L2" and L2pw: "pw_coprime L2"
      and L2t: "factors_over L2 t" and L2c: "factors_over L2 c0"
      and L2s: "list_all (\<lambda>v. supp_in v (t * c0)) L2"
      using L2(2) unfolding cb_pair_def by blast+
    have L2h: "factors_over L2 h'" using True by simp
    have L2supp: "acb_supp a1 b (2 * K) L2" unfolding acb_supp_def
    proof (intro ballI allI impI)
      fix v p assume v: "v \<in> set L2" and pp: "prime_int p \<and> p dvd v"
      hence p: "prime_int p" and pv: "p dvd v" by simp_all
      have p1: "1 < p" using p by (rule prime_int_gt1)
      have sv: "supp_in v (t * c0)" using L2s v by (simp add: list_all_iff)
      have "p dvd t * c0" using p sv pv by (rule supp_in_prime_dvd)
      with p have "p dvd t \<or> p dvd c0" by (rule prime_int_dvd_mult)
      hence "0 < ord p t \<or> 0 < ord p c0" using p1 tp c0(1) by (simp add: ord_pos_iff)
      hence "0 < ord p b - ord p x' \<or> 0 < ord p c0" using ot[OF p] by simp
      hence "0 < ord p b \<and> (ord p a1 \<le> ord p b \<or> 2 * (K * ord p b) < ord p a1)"
        using rnd(7)[OF p] by blast
      thus "0 < ord p b \<and> (ord p a1 \<le> ord p b \<or> 2 * K * ord p b < ord p a1)"
        by (simp add: mult.assoc)
    qed
    have "append_cb_frame out (Acb_loop b c0 g h x n) = Some (out @ L1 @ L2)"
      using unf True L2(1) by simp
    thus ?thesis using combine[OF L2gt L2pw L2h L2c L2t L2supp] by simp
  next
    case False
    then obtain p where p: "prime_int p" "0 < ord p h'" using ord_witness[OF h'p] by blast
    have lt: "2 * (K * ord p b) < ord p a1"
    proof (rule ccontr)
      assume "\<not> 2 * (K * ord p b) < ord p a1"
      hence "ord p h' = 0" using rnd(1)[OF p(1)] by simp
      thus False using p(2) by simp
    qed
    hence "0 < ord p a1" by simp
    hence "1 \<le> ord p b" using sup[OF p(1)] by simp
    hence "(2 * K) * 1 \<le> (2 * K) * ord p b" by (rule mult_le_mono2)
    moreover have "(2 * K) * ord p b = 2 * (K * ord p b)" by simp
    ultimately have "2 * K \<le> 2 * (K * ord p b)" by simp
    hence "2 * K < ord p a1" using lt by (rule le_less_trans)
    hence nE: "n < ord p a1" using nK by simp
    have "int (ord p a1) < 2 ^ ord p a1" by simp
    also have "\<dots> \<le> a1" using p(1) pos(1) by (rule ord_less_self)
    finally have "ord p a1 < nat a1" by simp
    hence m: "nat a1 - (n + 1) < nat a1 - n" using nE by simp
    have inv': "acb_inv a1 b (2 ^ (n + 1 - 1)) g' h' x'"
      unfolding acb_inv_def K2
    proof (intro conjI allI impI)
      fix p assume p: "prime_int p"
      show "if 2 * K * ord p b < ord p a1
            then ord p h' = ord p a1 \<and> ord p g' = 2 * K * ord p b \<and> ord p x' = 0
            else ord p h' = 0 \<and> ord p x' = min (ord p a1) (ord p b)"
        using rnd(1)[OF p] by (simp add: mult.assoc)
    qed (rule g'p h'p x'p)+
    have n1: "1 \<le> n + 1" by simp
    from less.hyps[OF m n1 inv', of "out @ L1"]
    obtain Lr where Lr: "append_cb_frame (out @ L1) (Acb_loop b c0 g' h' x' (n + 1)) = Some ((out @ L1) @ Lr)"
      "list_all (\<lambda>v. 1 < v) Lr" "pw_coprime Lr" "factors_over Lr h'" "factors_over Lr c0"
      "factors_over Lr (b div x')" "acb_supp a1 b (2 ^ (n + 1 - 1)) Lr" by blast
    have "append_cb_frame out (Acb_loop b c0 g h x n) = Some (out @ L1 @ Lr)"
      using unf False Lr(1) by simp
    thus ?thesis
      using combine[OF Lr(2,3,4,5) Lr(6)[folded t_def] Lr(7)[unfolded K2]] by simp
  qed
qed


lemma append_cb_correct:
  fixes a b :: int
  assumes "0 < a" "0 < b"
  shows "\<exists>L. append_cb out a b = Some (out @ L) \<and> cb_pair a b L"
  using assms
proof (induction "nat (a * b)" arbitrary: a b out rule: less_induct)
  case less
  note ap = less.prems(1) and bp = less.prems(2)
  show ?case
  proof (cases "b = 1")
    case True
    thus ?thesis using append_cb_base[OF ap] by simp
  next
    case False
    hence b2: "2 \<le> b" using bp by simp
    from ppi_ppo_ord[OF ap bp]
    obtain a1 r where pp: "ppi_ppo a b = Some (a1, r)" and a1p: "0 < a1" and rp: "0 < r"
      and ar: "a1 * r = a"
      and oa: "\<And>p. prime_int p \<Longrightarrow>
              ord p a1 = (if 0 < ord p b then ord p a else 0) \<and>
              ord p r = (if 0 < ord p b then 0 else ord p a)"
      by blast
    from gcd_ppg_pple_ord[OF a1p bp]
    obtain h0 c0 where run: "gcd_ppg_pple a1 b = Some (gcd a1 b, h0, c0)"
      and h0p: "0 < h0" and c0p: "0 < c0" and hc: "h0 * c0 = a1"
      and oh: "\<And>p. prime_int p \<Longrightarrow>
              ord p h0 = (if ord p b < ord p a1 then ord p a1 else 0) \<and>
              ord p c0 = (if ord p b < ord p a1 then 0 else ord p a1)"
      by blast
    define out1 where "out1 = (if r \<noteq> 1 then out @ [r] else out)"
    define R where "R = (if r \<noteq> 1 then [r] else [])"
    have out1: "out1 = out @ R" unfolding out1_def R_def by simp
    have unf: "append_cb out a b = append_cb_frame out1 (Acb_loop b c0 (gcd a1 b) h0 c0 1)"
      unfolding out1_def using False pp run by (rule append_cb_call_unfold)
    have sup: "\<And>p. prime_int p \<Longrightarrow> 0 < ord p a1 \<longrightarrow> 0 < ord p b"
      using oa by (simp split: if_splits)
    have oc0: "\<And>p. prime_int p \<Longrightarrow> ord p c0 = (if ord p b < ord p a1 then 0 else ord p a1)"
      using oh by simp
    have IH: "\<And>a' b' out. 0 < a' \<Longrightarrow> 0 < b' \<Longrightarrow> a' * b' < a * b \<Longrightarrow>
               \<exists>L. append_cb out a' b' = Some (out @ L) \<and> cb_pair a' b' L"
    proof -
      fix a' b' :: int and out assume h: "0 < a'" "0 < b'" "a' * b' < a * b"
      have "0 < a' * b'" using h(1,2) by simp
      hence "nat (a' * b') < nat (a * b)" using h(3) by simp
      thus "\<exists>L. append_cb out a' b' = Some (out @ L) \<and> cb_pair a' b' L"
        using h(1,2) by (rule less.hyps)
    qed
    have "a1 dvd a" using ar by (metis dvd_triv_left)
    hence a1a: "a1 \<le> a" using ap by (rule zdvd_imp_le)
    have "a * 1 < a * b" using ap b2 by (intro mult_strict_left_mono) simp_all
    hence aN: "a < a * b" by simp
    hence N1: "a1 < a * b" using a1a by simp
    have N2: "b < a * b" if "c0 \<noteq> 1"
    proof -
      have "a \<noteq> 1"
      proof
        assume "a = 1"
        hence "a1 = 1" using a1a a1p by simp
        hence "c0 dvd 1" using hc by (metis dvd_triv_right)
        hence "c0 = 1" using c0p by simp
        thus False using that by simp
      qed
      hence "1 < a" using ap by simp
      hence "1 * b < a * b" using bp by (intro mult_strict_right_mono) simp_all
      thus ?thesis by simp
    qed
    have gp: "0 < gcd a1 b" using a1p by (simp add: gcd_pos_int)
    have inv: "acb_inv a1 b (2 ^ (1 - 1)) (gcd a1 b) h0 c0" unfolding acb_inv_def
    proof (intro conjI allI impI)
      fix p assume p: "prime_int p"
      have "ord p (gcd a1 b) = min (ord p a1) (ord p b)" using p a1p bp by (rule ord_gcd)
      thus "if 2 ^ (1 - 1) * ord p b < ord p a1
            then ord p h0 = ord p a1 \<and> ord p (gcd a1 b) = 2 ^ (1 - 1) * ord p b \<and> ord p c0 = 0
            else ord p h0 = 0 \<and> ord p c0 = min (ord p a1) (ord p b)"
        using oh[OF p] by (simp add: min_def)
    qed (rule gp h0p c0p)+
    from acb_loop_correct[OF a1p bp sup c0p oc0 IH N1 N2 _ inv, of out1]
    obtain L where L: "append_cb_frame out1 (Acb_loop b c0 (gcd a1 b) h0 c0 1) = Some (out1 @ L)"
      "list_all (\<lambda>v. 1 < v) L" "pw_coprime L" "factors_over L h0" "factors_over L c0"
      "factors_over L (b div c0)" "acb_supp a1 b (2 ^ (1 - 1)) L" by auto
    have res: "append_cb out a b = Some (out @ (R @ L))" using unf L(1) out1 by simp
    have Rgt: "list_all (\<lambda>v. 1 < v) R" unfolding R_def using rp by simp
    have Lb: "\<And>v p. v \<in> set L \<Longrightarrow> prime_int p \<Longrightarrow> p dvd v \<Longrightarrow> 0 < ord p b"
      using L(7) unfolding acb_supp_def by blast
    have gt: "list_all (\<lambda>v. 1 < v) (R @ L)" using Rgt L(2) by simp
    have cross: "\<forall>v\<in>set R. \<forall>w\<in>set L. coprime v w"
    proof (intro ballI)
      fix v w assume v: "v \<in> set R" and w: "w \<in> set L"
      have vr: "v = r" using v unfolding R_def by (simp split: if_splits)
      have wp: "0 < w" using L(2) w by (auto simp: list_all_iff)
      show "coprime v w" unfolding vr
      proof (rule coprime_if_ord[OF rp wp])
        fix p assume p: "prime_int p"
        have p1: "1 < p" using p by (rule prime_int_gt1)
        show "ord p r = 0 \<or> ord p w = 0"
        proof (cases "p dvd w")
          case True
          hence "0 < ord p b" using w p by (intro Lb)
          thus ?thesis using oa[OF p] by simp
        next
          case False
          thus ?thesis by (simp add: ord_not_dvd)
        qed
      qed
    qed
    have pw: "pw_coprime (R @ L)" unfolding pw_coprime_append
      using L(3) cross by (simp add: R_def)
    have fR: "factors_over R r" unfolding R_def by (simp add: factors_over_single)
    have "factors_over (R @ L) (r * (h0 * c0))"
      using fR L(4,5) by (intro factors_over_mult factors_over_appendI1 factors_over_appendI2)
    hence fa: "factors_over (R @ L) a" using ar hc by (simp add: mult.commute)
    have "c0 dvd b"
    proof (rule dvd_if_ord_le[OF c0p bp])
      fix p assume p: "prime_int p"
      show "ord p c0 \<le> ord p b" using oc0[OF p] by simp
    qed
    hence bc: "b div c0 * c0 = b" by simp
    have "factors_over (R @ L) (b div c0 * c0)"
      using L(5,6) by (intro factors_over_mult factors_over_appendI2)
    hence fb: "factors_over (R @ L) b" unfolding bc .
    have "r dvd a" using ar by (metis dvd_triv_right)
    hence "supp_in r (a * b)" by (intro supp_in_mult_right supp_in_dvd)
    hence sR: "list_all (\<lambda>v. supp_in v (a * b)) R" unfolding R_def by simp
    have sL: "list_all (\<lambda>v. supp_in v (a * b)) L" unfolding list_all_iff
    proof
      fix v assume v: "v \<in> set L"
      have vp: "0 < v" using L(2) v by (auto simp: list_all_iff)
      have "supp_in v b"
      proof (rule supp_in_if_primes[OF vp bp])
        fix p assume p: "prime_int p" "p dvd v"
        have "0 < ord p b" using v p by (rule Lb)
        thus "p dvd b" using prime_int_gt1[OF p(1)] bp by (simp add: ord_pos_iff)
      qed
      thus "supp_in v (a * b)" by (rule supp_in_mult_right2)
    qed
    have "cb_pair a b (R @ L)" unfolding cb_pair_def using gt pw fa fb sR sL by simp
    thus ?thesis using res by blast
  qed
qed

subsection \<open>cbextend\<close>

lemma factors_over_prod_list:
  "(\<And>s. s \<in> set S \<Longrightarrow> factors_over L s) \<Longrightarrow> factors_over L (prod_list S)"
  by (induction S) (simp_all add: factors_over_mult)

lemma cbextend_loop_correct:
  assumes "\<And>i. i \<in> set is \<Longrightarrow> 0 < P ! i \<and> 0 < S ! i \<and> supp_in (S ! i) (P ! i)"
    and "distinct is"
    and "\<And>i j. i \<in> set is \<Longrightarrow> j \<in> set is \<Longrightarrow> i \<noteq> j \<Longrightarrow> coprime (P ! i) (P ! j)"
  shows "\<exists>L. cbextend_loop ret P S is = Some (ret @ L) \<and> list_all (\<lambda>v. 1 < v) L \<and> pw_coprime L \<and>
           (\<forall>i\<in>set is. factors_over L (P ! i) \<and> factors_over L (S ! i)) \<and>
           (\<forall>v\<in>set L. \<exists>i\<in>set is. supp_in v (P ! i))"
  using assms
proof (induction "is" arbitrary: ret)
  case Nil
  show ?case by simp
next
  case (Cons i "is")
  have pi: "0 < P ! i" and si: "0 < S ! i" and ss: "supp_in (S ! i) (P ! i)"
    using Cons.prems(1)[of i] by simp_all
  from append_cb_correct[OF pi si, of ret]
  obtain L1 where L1: "append_cb ret (P ! i) (S ! i) = Some (ret @ L1)" "cb_pair (P ! i) (S ! i) L1"
    by blast
  have L1gt: "list_all (\<lambda>v. 1 < v) L1" and L1pw: "pw_coprime L1"
    and L1p: "factors_over L1 (P ! i)" and L1s: "factors_over L1 (S ! i)"
    and L1su: "list_all (\<lambda>v. supp_in v (P ! i * S ! i)) L1"
    using L1(2) unfolding cb_pair_def by blast+
  have "supp_in (P ! i * S ! i) (P ! i)" using supp_in_refl ss by (rule supp_in_mult)
  hence L1supp: "\<And>v. v \<in> set L1 \<Longrightarrow> supp_in v (P ! i)"
    using L1su by (auto simp: list_all_iff intro: supp_in_trans)
  have p1: "\<And>j. j \<in> set is \<Longrightarrow> 0 < P ! j \<and> 0 < S ! j \<and> supp_in (S ! j) (P ! j)"
    using Cons.prems(1) by simp
  have p2: "distinct is" and ni: "i \<notin> set is" using Cons.prems(2) by simp_all
  have p3: "\<And>j k. j \<in> set is \<Longrightarrow> k \<in> set is \<Longrightarrow> j \<noteq> k \<Longrightarrow> coprime (P ! j) (P ! k)"
    using Cons.prems(3) by simp
  from Cons.IH[OF p1 p2 p3, of "ret @ L1"]
  obtain Lr where Lr: "cbextend_loop (ret @ L1) P S is = Some ((ret @ L1) @ Lr)"
    "list_all (\<lambda>v. 1 < v) Lr" "pw_coprime Lr"
    "\<forall>j\<in>set is. factors_over Lr (P ! j) \<and> factors_over Lr (S ! j)"
    "\<forall>v\<in>set Lr. \<exists>j\<in>set is. supp_in v (P ! j)" by blast
  have run: "cbextend_loop ret P S (i # is) = Some (ret @ (L1 @ Lr))" using L1(1) Lr(1) by simp
  have gt: "list_all (\<lambda>v. 1 < v) (L1 @ Lr)" using L1gt Lr(2) by simp
  have cross: "\<forall>v\<in>set L1. \<forall>w\<in>set Lr. coprime v w"
  proof (intro ballI)
    fix v w assume v: "v \<in> set L1" and w: "w \<in> set Lr"
    from Lr(5) w obtain j where j: "j \<in> set is" "supp_in w (P ! j)" by blast
    have "i \<noteq> j" using j(1) ni by blast
    hence "coprime (P ! j) (P ! i)" using Cons.prems(3)[of j i] j(1) by simp
    hence "coprime v (P ! j)" using L1supp[OF v] by (rule supp_in_coprime[rotated])
    hence "coprime w v" using j(2) by (rule supp_in_coprime[rotated])
    thus "coprime v w" by (simp add: coprime_commute)
  qed
  have pw: "pw_coprime (L1 @ Lr)" unfolding pw_coprime_append using L1pw Lr(3) cross by blast
  have f: "\<forall>j\<in>set (i # is). factors_over (L1 @ Lr) (P ! j) \<and> factors_over (L1 @ Lr) (S ! j)"
    using L1p L1s Lr(4) by (auto intro: factors_over_appendI1 factors_over_appendI2)
  have s: "\<forall>v\<in>set (L1 @ Lr). \<exists>j\<in>set (i # is). supp_in v (P ! j)"
    using L1supp Lr(5) by auto
  show ?case using run gt pw f s by blast
qed

lemma cbextend_correct:
  assumes "P \<noteq> []" "list_all (\<lambda>v. 1 < v) P" "pw_coprime P" "0 < b"
  shows "\<exists>L. cbextend ret P b = Some (ret @ L) \<and> list_all (\<lambda>v. 1 < v) L \<and> pw_coprime L \<and>
           (\<forall>v\<in>set P. factors_over L v) \<and> factors_over L b \<and>
           list_all (\<lambda>v. supp_in v (prod_list P * b)) L"
proof -
  let ?x = "prod_list P"
  have Ppos: "\<And>i. i < length P \<Longrightarrow> 0 < P ! i"
    using assms(2) by (auto simp: list_all_length)
  have xp: "0 < ?x" using assms(2) by (intro prod_list_pos_int) (auto simp: list_all_iff)
  from ppi_total[OF assms(4) xp]
  obtain a where a: "ppi b ?x = Some a" "ppi_ppo b ?x = Some (a, b div a)" "0 < a" "a dvd b"
    "supp_in a ?x" "coprime (b div a) ?x" "0 < b div a" by blast
  define r where "r = b div a"
  have rp: "0 < r" and ar: "a * r = b" unfolding r_def using a(4,7) by simp_all
  have le: "0 \<le> length P - 1" and lt: "length P - 1 < length P" using assms(1) by simp_all
  have SL: "Suc (length P - 1) = length P" using assms(1) by simp
  have ix: "\<And>i. i \<le> length P - 1 \<Longrightarrow> i < length P" using assms(1) by (cases P) simp_all
  have pos: "\<And>i. 0 \<le> i \<Longrightarrow> i \<le> length P - 1 \<Longrightarrow> 0 < P ! i" using Ppos ix by blast
  have cop: "\<And>i j. 0 \<le> i \<Longrightarrow> i < j \<Longrightarrow> j \<le> length P - 1 \<Longrightarrow> coprime (P ! i) (P ! j)"
    using pw_coprime_nth[OF assms(3)] ix by blast
  have rpd: "range_prod P 0 (length P - 1) = ?x" unfolding range_prod_def SL by (simp add: map_nth)
  from split_coprime[OF le lt a(3) pos cop, of "[]"]
  obtain S where S: "split [] a P 0 (length P - 1) = Some S" "length S = length P"
    "\<forall>i<length P. ppi a (P ! i) = Some (S ! i)" "ppi a ?x = Some (prod_list S)"
    unfolding rpd using SL by auto
  have "ppi a ?x = Some a" using a(3) xp a(5) by (rule ppi_of_supported)
  hence Sa: "prod_list S = a" using S(4) by simp
  have asp: "array_split [] a P = Some S" using S(1) assms(1) by (simp add: array_split_def)
  define R where "R = (if r \<noteq> 1 then [r] else [])"
  have unf: "cbextend ret P b = cbextend_loop (ret @ R) P S [0..<length P]"
    using assms(1) a(2) asp S(2) unfolding cbextend_def R_def r_def
    by (simp add: array_prod_eq Let_def)
  have h1: "\<And>i. i \<in> set [0..<length P] \<Longrightarrow> 0 < P ! i \<and> 0 < S ! i \<and> supp_in (S ! i) (P ! i)"
  proof -
    fix i assume "i \<in> set [0..<length P]"
    hence i: "i < length P" by simp
    from ppi_total[OF a(3) Ppos[OF i]] S(3) i
    show "0 < P ! i \<and> 0 < S ! i \<and> supp_in (S ! i) (P ! i)" using Ppos[OF i] by auto
  qed
  have h2: "distinct [0..<length P]" by simp
  have h3: "\<And>i j. i \<in> set [0..<length P] \<Longrightarrow> j \<in> set [0..<length P] \<Longrightarrow> i \<noteq> j \<Longrightarrow>
              coprime (P ! i) (P ! j)"
  proof -
    fix i j assume "i \<in> set [0..<length P]" "j \<in> set [0..<length P]" "i \<noteq> j"
    hence ij: "i < length P" "j < length P" "i < j \<or> j < i" by auto
    show "coprime (P ! i) (P ! j)"
      using ij pw_coprime_nth[OF assms(3), of i j] pw_coprime_nth[OF assms(3), of j i]
      by (auto simp: coprime_commute)
  qed
  from cbextend_loop_correct[OF h1 h2 h3, of "ret @ R"]
  obtain L where L: "cbextend_loop (ret @ R) P S [0..<length P] = Some ((ret @ R) @ L)"
    "list_all (\<lambda>v. 1 < v) L" "pw_coprime L"
    "\<forall>i\<in>set [0..<length P]. factors_over L (P ! i) \<and> factors_over L (S ! i)"
    "\<forall>v\<in>set L. \<exists>i\<in>set [0..<length P]. supp_in v (P ! i)" by blast
  have res: "cbextend ret P b = Some (ret @ (R @ L))" using unf L(1) by simp
  have Lx: "\<And>v. v \<in> set L \<Longrightarrow> supp_in v ?x"
  proof -
    fix v assume "v \<in> set L"
    then obtain i where i: "i < length P" "supp_in v (P ! i)" using L(5) by auto
    have "P ! i dvd ?x" using i(1) by (intro prod_list_member_dvd) simp
    hence "supp_in (P ! i) ?x" by (rule supp_in_dvd)
    with i(2) show "supp_in v ?x" by (rule supp_in_trans)
  qed
  have gt: "list_all (\<lambda>v. 1 < v) (R @ L)" using L(2) rp unfolding R_def by simp
  have cross: "\<forall>v\<in>set R. \<forall>w\<in>set L. coprime v w"
  proof (intro ballI)
    fix v w assume v: "v \<in> set R" and w: "w \<in> set L"
    have vr: "v = r" using v unfolding R_def by (simp split: if_splits)
    have "coprime w r" using Lx[OF w] a(6) unfolding r_def by (rule supp_in_coprime)
    thus "coprime v w" unfolding vr by (simp add: coprime_commute)
  qed
  have pw: "pw_coprime (R @ L)" unfolding pw_coprime_append using L(3) cross by (simp add: R_def)
  have fP: "\<forall>v\<in>set P. factors_over (R @ L) v"
  proof
    fix v assume "v \<in> set P"
    then obtain i where "i < length P" "P ! i = v" by (auto simp: in_set_conv_nth)
    hence "factors_over L v" using L(4) by auto
    thus "factors_over (R @ L) v" by (rule factors_over_appendI2)
  qed
  have "factors_over L (prod_list S)"
  proof (rule factors_over_prod_list)
    fix s assume "s \<in> set S"
    then obtain i where "i < length S" "S ! i = s" by (auto simp: in_set_conv_nth)
    thus "factors_over L s" using L(4) S(2) by auto
  qed
  hence fa: "factors_over L a" unfolding Sa .
  have fR: "factors_over R r" unfolding R_def by (simp add: factors_over_single)
  have "factors_over (R @ L) (r * a)"
    using fR fa by (intro factors_over_mult factors_over_appendI1 factors_over_appendI2)
  hence fb: "factors_over (R @ L) b" using ar by (simp add: mult.commute)
  have "r dvd b" using ar by (metis dvd_triv_right)
  hence "supp_in r (?x * b)" by (intro supp_in_mult_right2 supp_in_dvd)
  hence sR: "list_all (\<lambda>v. supp_in v (?x * b)) R" unfolding R_def by simp
  have sL: "list_all (\<lambda>v. supp_in v (?x * b)) L"
    unfolding list_all_iff using Lx by (auto intro: supp_in_mult_right)
  show ?thesis using res gt pw fP fb sR sL by (intro exI[of _ "R @ L"]) simp
qed

subsection \<open>cbmerge\<close>

text \<open>The product of the elements of \<open>Q\<close> whose index satisfies \<open>A\<close>.\<close>

definition cls_prod :: "int list \<Rightarrow> (nat \<Rightarrow> bool) \<Rightarrow> int" where
  "cls_prod Q A = prod_list (map (nth Q) (filter A [0..<length Q]))"

text \<open>
  Bit \<open>i\<close> of \<open>k\<close> as a number. \<open>bit\<close> computes it as long as the shifted \<open>1\<close> stays a
  positive \<open>int\<close>, that is for \<open>i < 31\<close>.
\<close>

definition bit_val :: "nat \<Rightarrow> nat \<Rightarrow> int" where
  "bit_val i k = (if and k (push_bit i 1) \<noteq> 0 then 1 else 0)"

lemma scast_shift_small: "i < 31 \<Longrightarrow> (scast (push_bit i (1 :: 32 word)) :: 64 word) = 2 ^ i"
  by (rule bit_eqI) (auto simp add: bit_simps)

lemma bit_k_small: "i < 31 \<Longrightarrow> bit_k i k = Some (bit_val i k)"
  unfolding bit_k_def bit_val_def
  by (simp add: scast_shift_small and_exp_eq_0_iff_not_bit bit_simps del: push_bit_of_1)

lemma bit_select_small:
  "i < 31 \<Longrightarrow> bit_select want i q r ks =
     Some (r @ map (nth q) (filter (\<lambda>k. (bit_val i k \<noteq> 0) = want) ks))"
  by (induction ks arbitrary: r) (simp_all add: bit_k_small)

lemma cbmerge_loop_step:
  "i < 31 \<Longrightarrow> cbmerge_loop q s (i # is) =
     do {
       t \<leftarrow> cbextend [] s (cls_prod q (\<lambda>k. bit_val i k = 0));
       s' \<leftarrow> cbextend [] t (cls_prod q (\<lambda>k. bit_val i k \<noteq> 0));
       cbmerge_loop q s' is
     }"
  by (simp add: bit_select_small array_prod_eq cls_prod_def)

text \<open>For \<open>i = 31\<close> the shifted \<open>1\<close> is the least \<open>int\<close>, and its conversion sets the bits 31 to 63.\<close>

lemma bit_one_shifted: "i < 32 \<Longrightarrow> bit (push_bit i (1 :: 32 word)) m \<longleftrightarrow> m = i"
  unfolding push_bit_of_1 bit_exp_iff by auto

lemma scast_shift_31:
  "bit (scast (push_bit 31 (1 :: 32 word)) :: 64 word) n \<longleftrightarrow> 31 \<le> n \<and> n < 64"
  unfolding bit_word_scast_iff by (subst bit_one_shifted, simp)+ auto

lemma and_ne_0_iff: "and (a :: 64 word) b \<noteq> 0 \<longleftrightarrow> (\<exists>n. bit a n \<and> bit b n)"
proof -
  have "and a b \<noteq> 0 \<longleftrightarrow> (\<exists>n. bit (and a b) n)"
  proof
    assume "and a b \<noteq> 0"
    thus "\<exists>n. bit (and a b) n" by (auto simp: bit_eq_iff)
  next
    assume "\<exists>n. bit (and a b) n"
    thus "and a b \<noteq> 0" by auto
  qed
  thus ?thesis unfolding bit_and_iff .
qed

lemma bit_size_t: "bit (word_of_nat k :: 64 word) n \<longleftrightarrow> n < 64 \<and> bit k n"
  by (simp add: bit_simps)

lemma bit_k_31: "bit_k 31 k = Some (if \<exists>n. 31 \<le> n \<and> n < 64 \<and> bit k n then 1 else 0)"
proof -
  have "and (word_of_nat k :: 64 word) (scast (push_bit 31 (1 :: 32 word))) \<noteq> 0 \<longleftrightarrow>
        (\<exists>n. 31 \<le> n \<and> n < 64 \<and> bit k n)"
    unfolding and_ne_0_iff scast_shift_31 bit_size_t by auto
  moreover have "\<not> (32::nat) \<le> 31" by simp
  ultimately show ?thesis
    unfolding bit_k_def by (simp only: if_False if_True split: if_splits) blast
qed

lemma bit_k_31_example: "bit_k 31 (2 ^ 32) = Some 1"
proof -
  have "bit ((2::nat) ^ 32) 32" by (simp add: bit_simps)
  hence "\<exists>n. 31 \<le> n \<and> n < 64 \<and> bit ((2::nat) ^ 32) n" by (intro exI[of _ 32]) simp
  thus ?thesis unfolding bit_k_31 by (simp only: if_True)
qed

lemma bit_k_undefined: "32 \<le> i \<Longrightarrow> bit_k i k = None"
  by (simp add: bit_k_def)

definition same_bits :: "nat \<Rightarrow> nat \<Rightarrow> nat \<Rightarrow> bool" where
  "same_bits i k k' \<longleftrightarrow> (\<forall>j<i. bit_val j k' = bit_val j k)"

lemma bit_val_iff: "bit_val i k \<noteq> 0 \<longleftrightarrow> bit k i"
  unfolding bit_val_def by (simp add: and_exp_eq_0_iff_not_bit)

lemma bit_val_eq_iff: "bit_val i k' = bit_val i k \<longleftrightarrow> (bit k' i \<longleftrightarrow> bit k i)"
  unfolding bit_val_def by (simp add: and_exp_eq_0_iff_not_bit)

lemma bit_val_zero_iff: "bit_val i k = 0 \<longleftrightarrow> \<not> bit k i"
  unfolding bit_val_def by (simp add: and_exp_eq_0_iff_not_bit)

lemma same_bits_unique:
  assumes "k < 2 ^ b" "k' < 2 ^ b" "same_bits b k k'"
  shows "k' = k"
proof (rule bit_eqI)
  fix j
  show "bit k' j \<longleftrightarrow> bit k j"
  proof (cases "j < b")
    case True
    thus ?thesis using assms(3) unfolding same_bits_def bit_val_eq_iff by blast
  next
    case False
    hence "(2::nat) ^ b \<le> 2 ^ j" by (intro power_increasing) simp_all
    hence "k < 2 ^ j" "k' < 2 ^ j" using assms(1,2) by (auto intro: less_le_trans)
    thus ?thesis by (simp add: bit_iff_odd)
  qed
qed

lemma same_bits_Suc:
  "same_bits (Suc i) k k' \<longleftrightarrow> same_bits i k k' \<and> bit_val i k' = bit_val i k"
  unfolding same_bits_def by (auto simp: less_Suc_eq)

lemma concat_if_filter:
  "concat (map (\<lambda>k. if A k then [f k] else []) ks) = map f (filter A ks)"
  by (induction ks) simp_all

lemma sel_dvd: "prod_list (map f (filter A ks)) dvd prod_list (map f ks :: int list)"
  by (induction ks) (auto intro: mult_dvd_mono dvd_mult)

lemma cls_prod_dvd: "cls_prod Q A dvd prod_list Q"
proof -
  have "cls_prod Q A dvd prod_list (map (nth Q) [0..<length Q])" unfolding cls_prod_def by (rule sel_dvd)
  thus ?thesis by (simp add: map_nth)
qed

lemma cls_prod_pos: "list_all (\<lambda>v. 0 < v) Q \<Longrightarrow> 0 < cls_prod Q A"
  unfolding cls_prod_def by (intro prod_list_pos_int) (auto simp: list_all_length)

lemma gcd_sel:
  assumes "distinct ks" "\<And>k. k \<in> set ks \<Longrightarrow> k < length Q" "pw_coprime Q" "list_all (\<lambda>v. 0 < v) Q"
  shows "gcd (prod_list (map (nth Q) (filter A ks))) (prod_list (map (nth Q) (filter B ks))) =
         prod_list (map (nth Q) (filter (\<lambda>k. A k \<and> B k) ks))"
  using assms(1,2)
proof (induction ks)
  case Nil
  show ?case by simp
next
  case (Cons k ks)
  let ?U = "prod_list (map (nth Q) (filter A ks))"
  let ?V = "prod_list (map (nth Q) (filter B ks))"
  have ih: "gcd ?U ?V = prod_list (map (nth Q) (filter (\<lambda>k. A k \<and> B k) ks))"
    using Cons by simp
  have kl: "k < length Q" and nk: "k \<notin> set ks" using Cons.prems by simp_all
  have qp: "0 < Q ! k" using assms(4) kl by (simp add: list_all_length)
  have cq: "\<And>j. j \<in> set ks \<Longrightarrow> coprime (Q ! k) (Q ! j)"
  proof -
    fix j assume j: "j \<in> set ks"
    hence "j < length Q" "j \<noteq> k" using Cons.prems(2) nk by auto
    hence "j < k \<or> k < j" by auto
    thus "coprime (Q ! k) (Q ! j)"
      using pw_coprime_nth[OF assms(3), of j k] pw_coprime_nth[OF assms(3), of k j] kl \<open>j < length Q\<close>
      by (auto simp: coprime_commute)
  qed
  have cq': "\<And>j. j \<in> set ks \<Longrightarrow> coprime (Q ! j) (Q ! k)" using cq by (simp add: coprime_commute)
  have cU: "coprime ?U (Q ! k)" by (intro prod_list_coprime_left) (auto simp: cq')
  have cV: "coprime ?V (Q ! k)" by (intro prod_list_coprime_left) (auto simp: cq')
  show ?case
  proof (cases "A k")
    case Ak: True
    show ?thesis
    proof (cases "B k")
      case True
      have "gcd (Q ! k * ?U) (Q ! k * ?V) = \<bar>Q ! k\<bar> * gcd ?U ?V" by (rule gcd_mult_distrib_int[symmetric])
      thus ?thesis using Ak True ih qp by simp
    next
      case False
      have "gcd (Q ! k * ?U) ?V = gcd ?U ?V" using cV by (rule gcd_mult_left_left_cancel)
      thus ?thesis using Ak False ih by simp
    qed
  next
    case nAk: False
    show ?thesis
    proof (cases "B k")
      case True
      have "gcd ?U (Q ! k * ?V) = gcd ?U ?V" using cU by (rule gcd_mult_right_left_cancel)
      thus ?thesis using nAk True ih by simp
    next
      case False
      thus ?thesis using nAk ih by simp
    qed
  qed
qed

lemma gcd_cls:
  assumes "pw_coprime Q" "list_all (\<lambda>v. 0 < v) Q"
  shows "gcd (cls_prod Q A) (cls_prod Q B) = cls_prod Q (\<lambda>k. A k \<and> B k)"
  unfolding cls_prod_def using assms by (intro gcd_sel) simp_all

lemma cls_prod_single:
  assumes "k < length Q" "\<And>k'. k' < length Q \<Longrightarrow> A k' \<longleftrightarrow> k' = k"
  shows "cls_prod Q A = Q ! k"
proof -
  have "filter A [0..<length Q] = filter (\<lambda>k'. k' = k) [0..<length Q]"
    using assms(2) by (intro filter_cong) simp_all
  also have "\<dots> = [k]" using assms(1)
  proof (induction Q rule: rev_induct)
    case Nil
    thus ?case by simp
  next
    case (snoc x xs)
    thus ?case by (cases "k = length xs") simp_all
  qed
  finally show ?thesis unfolding cls_prod_def by simp
qed

lemma cls_prod_cong: "(\<And>k. k < length Q \<Longrightarrow> A k \<longleftrightarrow> B k) \<Longrightarrow> cls_prod Q A = cls_prod Q B"
proof -
  assume "\<And>k. k < length Q \<Longrightarrow> A k \<longleftrightarrow> B k"
  hence "filter A [0..<length Q] = filter B [0..<length Q]" by (intro filter_cong) simp_all
  thus ?thesis unfolding cls_prod_def by simp
qed


lemma cbextend_fresh:
  assumes "S \<noteq> []" "list_all (\<lambda>v. 1 < v) S" "pw_coprime S" "0 < x"
  shows "\<exists>T. cbextend [] S x = Some T \<and> T \<noteq> [] \<and> list_all (\<lambda>v. 1 < v) T \<and> pw_coprime T \<and>
           (\<forall>u. factors_over S u \<longrightarrow> factors_over T u) \<and> factors_over T x \<and>
           (\<forall>X. list_all (\<lambda>v. supp_in v X) S \<and> supp_in x X \<longrightarrow> list_all (\<lambda>v. supp_in v X) T)"
proof -
  from cbextend_correct[OF assms, of "[]"]
  obtain T where T: "cbextend [] S x = Some T" "list_all (\<lambda>v. 1 < v) T" "pw_coprime T"
    "\<forall>v\<in>set S. factors_over T v" "factors_over T x"
    "list_all (\<lambda>v. supp_in v (prod_list S * x)) T" by auto
  have ne: "T \<noteq> []"
  proof
    assume e: "T = []"
    obtain v where v: "v \<in> set S" using assms(1) by (cases S) auto
    hence "v = 1" using T(4) e by simp
    thus False using assms(2) v by (auto simp: list_all_iff)
  qed
  have tr: "\<forall>u. factors_over S u \<longrightarrow> factors_over T u"
    using T(4) by (blast intro: factors_over_trans)
  have sp: "\<forall>X. list_all (\<lambda>v. supp_in v X) S \<and> supp_in x X \<longrightarrow> list_all (\<lambda>v. supp_in v X) T"
  proof (intro allI impI)
    fix X assume h: "list_all (\<lambda>v. supp_in v X) S \<and> supp_in x X"
    hence "supp_in (prod_list S) X" by (intro prod_list_supp_in) (simp add: list_all_iff)
    hence "supp_in (prod_list S * x) X" using h by (intro supp_in_mult) simp_all
    thus "list_all (\<lambda>v. supp_in v X) T"
      using T(6) by (auto simp: list_all_iff intro: supp_in_trans)
  qed
  show ?thesis using T(1,2,3,5) ne tr sp by blast
qed

text \<open>
  The invariant of the loop of \<open>cbmerge\<close> at the head of round \<open>i\<close>: \<open>S\<close> is a coprime
  base over which \<open>P\<close> factors, and so does, for every \<open>k\<close>, the product of the \<open>Q[k']\<close>
  whose index agrees with \<open>k\<close> on the bits below \<open>i\<close>.
\<close>

definition merge_inv :: "int list \<Rightarrow> int list \<Rightarrow> nat \<Rightarrow> int list \<Rightarrow> bool" where
  "merge_inv P Q i S \<longleftrightarrow>
     S \<noteq> [] \<and> list_all (\<lambda>v. 1 < v) S \<and> pw_coprime S \<and> (\<forall>v\<in>set P. factors_over S v) \<and>
     (0 < i \<longrightarrow> (\<forall>k<length Q. factors_over S (cls_prod Q (same_bits i k)))) \<and>
     list_all (\<lambda>v. supp_in v (prod_list P * prod_list Q)) S"

lemma array_prod_sel:
  "array_prod [Q ! k. k \<leftarrow> [0..<length Q], A k] = Some (cls_prod Q A)"
  unfolding array_prod_eq cls_prod_def by (simp add: concat_if_filter)

lemma cbmerge_step:
  assumes Q: "list_all (\<lambda>v. 1 < v) Q" "pw_coprime Q" and inv: "merge_inv P Q i S"
  shows "\<exists>T S'. cbextend [] S (cls_prod Q (\<lambda>k. bit_val i k = 0)) = Some T \<and>
                cbextend [] T (cls_prod Q (\<lambda>k. bit_val i k \<noteq> 0)) = Some S' \<and>
                merge_inv P Q (Suc i) S'"
proof -
  let ?x0 = "cls_prod Q (\<lambda>k. bit_val i k = 0)"
  let ?x1 = "cls_prod Q (\<lambda>k. bit_val i k \<noteq> 0)"
  let ?X = "prod_list P * prod_list Q"
  have Qpos: "list_all (\<lambda>v. 0 < v) Q" using Q(1) by (auto simp: list_all_iff)
  have x0p: "0 < ?x0" and x1p: "0 < ?x1" using Qpos by (rule cls_prod_pos)+
  have Sne: "S \<noteq> []" and Sgt: "list_all (\<lambda>v. 1 < v) S" and Spw: "pw_coprime S"
    and SP: "\<forall>v\<in>set P. factors_over S v"
    and Scl: "0 < i \<longrightarrow> (\<forall>k<length Q. factors_over S (cls_prod Q (same_bits i k)))"
    and Ssp: "list_all (\<lambda>v. supp_in v ?X) S"
    using inv unfolding merge_inv_def by blast+
  from cbextend_fresh[OF Sne Sgt Spw x0p]
  obtain T where T: "cbextend [] S ?x0 = Some T" "T \<noteq> []" "list_all (\<lambda>v. 1 < v) T" "pw_coprime T"
    "\<forall>u. factors_over S u \<longrightarrow> factors_over T u" "factors_over T ?x0"
    "\<forall>X. list_all (\<lambda>v. supp_in v X) S \<and> supp_in ?x0 X \<longrightarrow> list_all (\<lambda>v. supp_in v X) T"
    by blast
  from cbextend_fresh[OF T(2,3,4) x1p]
  obtain S' where S': "cbextend [] T ?x1 = Some S'" "S' \<noteq> []" "list_all (\<lambda>v. 1 < v) S'"
    "pw_coprime S'" "\<forall>u. factors_over T u \<longrightarrow> factors_over S' u" "factors_over S' ?x1"
    "\<forall>X. list_all (\<lambda>v. supp_in v X) T \<and> supp_in ?x1 X \<longrightarrow> list_all (\<lambda>v. supp_in v X) S'"
    by blast
  have up: "\<And>u. factors_over S u \<Longrightarrow> factors_over S' u" using T(5) S'(5) by blast
  have f0: "factors_over S' ?x0" using T(6) S'(5) by blast
  have sx: "\<And>A. supp_in (cls_prod Q A) ?X"
    by (intro supp_in_mult_right2 supp_in_dvd cls_prod_dvd)
  have "list_all (\<lambda>v. supp_in v ?X) T" using T(7) Ssp sx by blast
  hence sp: "list_all (\<lambda>v. supp_in v ?X) S'" using S'(7) sx by blast
  have S'pos: "\<And>v. v \<in> set S' \<Longrightarrow> 0 < v" using S'(3) by (auto simp: list_all_iff)
  have cl: "\<forall>k<length Q. factors_over S' (cls_prod Q (same_bits (Suc i) k))"
  proof (intro allI impI)
    fix k assume k: "k < length Q"
    let ?xk = "cls_prod Q (\<lambda>k'. bit_val i k' = bit_val i k)"
    have fxk: "factors_over S' ?xk"
    proof (cases "bit_val i k = 0")
      case True
      thus ?thesis using f0 by simp
    next
      case False
      hence "\<And>k'. bit_val i k' = bit_val i k \<longleftrightarrow> bit_val i k' \<noteq> 0"
        unfolding bit_val_def by (auto split: if_splits)
      thus ?thesis using S'(6) by simp
    qed
    show "factors_over S' (cls_prod Q (same_bits (Suc i) k))"
    proof (cases "i = 0")
      case True
      have "cls_prod Q (same_bits (Suc i) k) = ?xk"
        unfolding True by (intro cls_prod_cong) (simp add: same_bits_def)
      thus ?thesis using fxk by simp
    next
      case False
      hence "factors_over S (cls_prod Q (same_bits i k))" using Scl k by simp
      hence "factors_over S' (cls_prod Q (same_bits i k))" by (rule up)
      hence "factors_over S' (gcd (cls_prod Q (same_bits i k)) ?xk)"
        using S'(4) S'pos fxk by (intro factors_over_gcd)
      moreover have "gcd (cls_prod Q (same_bits i k)) ?xk =
                     cls_prod Q (\<lambda>k'. same_bits i k k' \<and> bit_val i k' = bit_val i k)"
        using Q(2) Qpos by (rule gcd_cls)
      ultimately show ?thesis by (simp add: same_bits_Suc[abs_def])
    qed
  qed
  have "merge_inv P Q (Suc i) S'"
    unfolding merge_inv_def using S'(2,3,4) SP up cl sp by blast
  thus ?thesis using T(1) S'(1) by blast
qed

lemma cbmerge_loop_correct:
  assumes Q: "list_all (\<lambda>v. 1 < v) Q" "pw_coprime Q" and inv: "merge_inv P Q i S" and le: "i \<le> b"
    and b: "b \<le> 31"
  shows "\<exists>B. cbmerge_loop Q S [i..<b] = Some B \<and> merge_inv P Q b B"
  using inv le
proof (induction "b - i" arbitrary: i S)
  case 0
  hence "i = b" by simp
  thus ?case using "0.prems"(1) by simp
next
  case (Suc m)
  hence lt: "i < b" by simp
  from cbmerge_step[OF Q Suc.prems(1)]
  obtain T S' where st: "cbextend [] S (cls_prod Q (\<lambda>k. bit_val i k = 0)) = Some T"
    "cbextend [] T (cls_prod Q (\<lambda>k. bit_val i k \<noteq> 0)) = Some S'" "merge_inv P Q (Suc i) S'" by blast
  have m: "m = b - Suc i" using Suc.hyps(2) by simp
  from Suc.hyps(1)[OF m st(3)] lt
  obtain B where B: "cbmerge_loop Q S' [Suc i..<b] = Some B" "merge_inv P Q b B" by auto
  have "[i..<b] = i # [Suc i..<b]" using lt by (rule upt_conv_Cons)
  moreover have "i < 31" using lt b by simp
  ultimately have "cbmerge_loop Q S [i..<b] = Some B"
    using st(1,2) B(1) by (simp add: cbmerge_loop_step del: cbmerge_loop.simps)
  thus ?case using B(2) by blast
qed

lemma cbmerge_correct:
  assumes P: "P \<noteq> []" "list_all (\<lambda>v. 1 < v) P" "pw_coprime P"
    and Q: "list_all (\<lambda>v. 1 < v) Q" "pw_coprime Q" and small: "length Q \<le> 2 ^ 31"
  shows "\<exists>B. cbmerge [] P Q = Some B \<and> B \<noteq> [] \<and> list_all (\<lambda>v. 1 < v) B \<and> pw_coprime B \<and>
           (\<forall>v\<in>set P \<union> set Q. factors_over B v) \<and>
           list_all (\<lambda>v. supp_in v (prod_list P * prod_list Q)) B"
proof -
  let ?b = "cbmerge_b (length Q)"
  have bs: "0 < ?b" "length Q \<le> 2 ^ ?b"
    unfolding cbmerge_b_def using cbmerge_b_loop_spec[of 0 "length Q"] by simp_all
  have "list_all (\<lambda>v. supp_in v (prod_list P * prod_list Q)) P"
    unfolding list_all_iff
  proof
    fix v assume "v \<in> set P"
    hence "v dvd prod_list P" by (rule prod_list_member_dvd)
    hence "supp_in v (prod_list P)" by (rule supp_in_dvd)
    thus "supp_in v (prod_list P * prod_list Q)" by (rule supp_in_mult_right)
  qed
  hence inv0: "merge_inv P Q 0 P"
    unfolding merge_inv_def using P by (simp add: factors_over_elem)
  have b31: "?b \<le> 31"
  proof -
    have "1 \<le> (31::nat) \<and> length Q \<le> 2 ^ 31" using small by simp
    hence "(LEAST b. 1 \<le> b \<and> length Q \<le> 2 ^ b) \<le> 31" by (rule Least_le)
    thus ?thesis unfolding cbmerge_b_least .
  qed
  from cbmerge_loop_correct[OF Q inv0 _ b31]
  obtain B where B: "cbmerge_loop Q P [0..<?b] = Some B" "merge_inv P Q ?b B" by auto
  have Bne: "B \<noteq> []" and Bgt: "list_all (\<lambda>v. 1 < v) B" and Bpw: "pw_coprime B"
    and BP: "\<forall>v\<in>set P. factors_over B v"
    and Bcl: "\<forall>k<length Q. factors_over B (cls_prod Q (same_bits ?b k))"
    and Bsp: "list_all (\<lambda>v. supp_in v (prod_list P * prod_list Q)) B"
    using B(2) bs(1) unfolding merge_inv_def by blast+
  have BQ: "\<forall>v\<in>set Q. factors_over B v"
  proof
    fix v assume "v \<in> set Q"
    then obtain k where k: "k < length Q" "Q ! k = v" by (auto simp: in_set_conv_nth)
    have "cls_prod Q (same_bits ?b k) = Q ! k"
    proof (rule cls_prod_single[OF k(1)])
      fix k' assume k': "k' < length Q"
      show "same_bits ?b k k' \<longleftrightarrow> k' = k"
      proof
        assume "same_bits ?b k k'"
        moreover have "k < 2 ^ ?b" "k' < 2 ^ ?b" using k(1) k' bs(2) by simp_all
        ultimately show "k' = k" by (intro same_bits_unique)
      next
        assume "k' = k"
        thus "same_bits ?b k k'" by (simp add: same_bits_def)
      qed
    qed
    thus "factors_over B v" using Bcl k by auto
  qed
  have "cbmerge [] P Q = Some B" unfolding cbmerge_def using B(1) by simp
  thus ?thesis using Bne Bgt Bpw BP BQ Bsp by blast
qed

subsection \<open>cb\<close>

text \<open>
  The prime divisors of the product of the input. A pairwise coprime list of values \<open>> 1\<close>
  that divide a power of \<open>X\<close> is not longer than the number of prime divisors of \<open>X\<close>;
  while this number is at most \<open>2^31\<close>, \<open>cbmerge\<close> calls \<open>bit\<close> only with \<open>i < 31\<close>.
\<close>

definition prime_divisors :: "int \<Rightarrow> int set" where
  "prime_divisors X = {p. prime_int p \<and> p dvd X}"

lemma prime_divisors_bounded: "0 < X \<Longrightarrow> prime_divisors X \<subseteq> {1..X}"
proof
  fix p assume X: "0 < X" and "p \<in> prime_divisors X"
  hence p: "prime_int p" "p dvd X" unfolding prime_divisors_def by simp_all
  have "1 < p" using p(1) by (rule prime_int_gt1)
  moreover have "p \<le> X" using X p(2) by (rule zdvd_imp_le[rotated])
  ultimately show "p \<in> {1..X}" by simp
qed

lemma finite_prime_divisors: "0 < X \<Longrightarrow> finite (prime_divisors X)"
proof -
  assume "0 < X"
  hence "prime_divisors X \<subseteq> {1..X}" by (rule prime_divisors_bounded)
  thus "finite (prime_divisors X)" by (rule finite_subset) simp
qed

lemma card_prime_divisors_le: "0 < X \<Longrightarrow> card (prime_divisors X) \<le> nat X"
proof -
  assume X: "0 < X"
  have "card (prime_divisors X) \<le> card {1..X}"
    using prime_divisors_bounded[OF X] by (intro card_mono) simp_all
  thus ?thesis by simp
qed

lemma card_prime_divisors_mono:
  assumes "Y dvd X" "0 < X"
  shows "card (prime_divisors Y) \<le> card (prime_divisors X)"
proof (rule card_mono)
  show "finite (prime_divisors X)" using assms(2) by (rule finite_prime_divisors)
  show "prime_divisors Y \<subseteq> prime_divisors X"
    unfolding prime_divisors_def using assms(1) by (auto intro: dvd_trans)
qed

lemma base_length:
  assumes "pw_coprime B" "list_all (\<lambda>v. 1 < v) B" "list_all (\<lambda>v. supp_in v X) B" "0 < X"
  shows "length B \<le> card (prime_divisors X)"
  using assms
proof (induction B arbitrary: X)
  case Nil
  thus ?case by simp
next
  case (Cons v B)
  have v1: "1 < v" and sv: "supp_in v X" using Cons.prems by simp_all
  obtain p where p: "prime_int p" "p dvd v" using prime_divisor_exists[OF v1] by blast
  have pX: "p dvd X" using supp_in_prime_dvd[OF p(1) sv p(2)] .
  have p1: "1 < p" using p(1) by (rule prime_int_gt1)
  from ord_decomp[OF p1 Cons.prems(4)]
  obtain Y where Y: "X = p ^ ord p X * Y" "\<not> p dvd Y" "0 < Y" by blast
  have sB: "list_all (\<lambda>w. supp_in w Y) B"
    unfolding list_all_iff
  proof
    fix w assume w: "w \<in> set B"
    have cw: "coprime v w" using Cons.prems(1) w by (simp add: list_all_iff)
    have npw: "\<not> p dvd w"
    proof
      assume "p dvd w"
      with cw p(2) have "is_unit p" by (rule coprime_common_divisor)
      thus False using p1 by simp
    qed
    have cp: "coprime p w" using p(1) npw by (rule prime_int_coprime)
    have "supp_in w X" using Cons.prems(3) w by (simp add: list_all_iff)
    then obtain k where k: "w dvd X ^ k" unfolding supp_in_def by blast
    have "X ^ k = (p ^ ord p X) ^ k * Y ^ k" by (subst Y(1)) (rule power_mult_distrib)
    hence "w dvd (p ^ ord p X) ^ k * Y ^ k" using k by simp
    moreover have "coprime w ((p ^ ord p X) ^ k)" using cp by (simp add: coprime_commute)
    ultimately have "w dvd Y ^ k" by (simp add: coprime_dvd_mult_right_iff)
    thus "supp_in w Y" by (rule supp_inI)
  qed
  have "pw_coprime B" "list_all (\<lambda>v. 1 < v) B" using Cons.prems by simp_all
  from Cons.IH[OF this sB Y(3)] have ih: "length B \<le> card (prime_divisors Y)" .
  have fin: "finite (prime_divisors X)" using Cons.prems(4) by (rule finite_prime_divisors)
  have pin: "p \<in> prime_divisors X" unfolding prime_divisors_def using p(1) pX by simp
  have "Y dvd X" by (subst Y(1)) simp
  hence sub: "prime_divisors Y \<subseteq> prime_divisors X - {p}"
    unfolding prime_divisors_def using Y(2) by (auto intro: dvd_trans)
  have "card (prime_divisors Y) \<le> card (prime_divisors X - {p})"
    using sub fin by (intro card_mono) simp_all
  also have "\<dots> < card (prime_divisors X)" using fin pin by (rule card_Diff1_less)
  finally have "card (prime_divisors Y) < card (prime_divisors X)" .
  thus ?case using ih by simp
qed

lemma cb_correct:
  assumes "from \<le> to" "to < length s" "\<And>i. from \<le> i \<Longrightarrow> i \<le> to \<Longrightarrow> 0 < s ! i"
    "card (prime_divisors (range_prod s from to)) \<le> 2 ^ 31"
  shows "\<exists>B. cb [] s from to = Some B \<and> list_all (\<lambda>v. 1 < v) B \<and> pw_coprime B \<and>
           (\<forall>i. from \<le> i \<and> i \<le> to \<longrightarrow> factors_over B (s ! i)) \<and>
           list_all (\<lambda>v. supp_in v (range_prod s from to)) B"
  using assms
proof (induction "[] :: int list" s "from" to rule: cb.induct)
  case (1 s "from" to)
  have g: "\<not> (to < from \<or> length s \<le> to)" using "1.prems"(1,2) by simp
  show ?case
  proof (cases "to - from = 0")
    case True
    hence e: "to = from" using "1.prems"(1) by simp
    have sp: "0 < s ! from" using "1.prems"(3)[of "from"] e by simp
    have ix: "\<And>i. from \<le> i \<and> i \<le> to \<Longrightarrow> s ! i = s ! from"
    proof -
      fix i assume "from \<le> i \<and> i \<le> to"
      hence "i = from" using e by simp
      thus "s ! i = s ! from" by simp
    qed
    show ?thesis
    proof (cases "s ! from = 1")
      case one: True
      have "cb [] s from to = Some []" using g True sp one by (subst cb.simps) simp
      moreover have "\<forall>i. from \<le> i \<and> i \<le> to \<longrightarrow> factors_over [] (s ! i)"
      proof (intro allI impI)
        fix i assume "from \<le> i \<and> i \<le> to"
        hence "s ! i = 1" unfolding ix[OF \<open>from \<le> i \<and> i \<le> to\<close>] using one by simp
        thus "factors_over [] (s ! i)" by simp
      qed
      ultimately show ?thesis by simp
    next
      case False
      have "cb [] s from to = Some [s ! from]" using g True sp False by (subst cb.simps) simp
      moreover have "\<forall>i. from \<le> i \<and> i \<le> to \<longrightarrow> factors_over [s ! from] (s ! i)"
      proof (intro allI impI)
        fix i assume i: "from \<le> i \<and> i \<le> to"
        show "factors_over [s ! from] (s ! i)" unfolding ix[OF i] by (rule factors_over_single)
      qed
      moreover have "supp_in (s ! from) (range_prod s from to)"
        unfolding e range_prod_single by (rule supp_in_refl)
      ultimately show ?thesis using sp False by simp
    qed
  next
    case False
    let ?m = "to - (to - from) div 2 - 1"
    let ?k = "to - (to - from) div 2"
    note h = halves[OF "1.prems"(1) False]
    have mlt: "?m < length s" using h(4) "1.prems"(2) by simp
    have posL: "\<And>i. from \<le> i \<Longrightarrow> i \<le> ?m \<Longrightarrow> 0 < s ! i" using "1.prems"(3) h(4) by simp
    have posR: "\<And>i. ?k \<le> i \<Longrightarrow> i \<le> to \<Longrightarrow> 0 < s ! i" using "1.prems"(3) h(1,2) by simp
    have "range_prod s from to = range_prod s from ?m * range_prod s (Suc ?m) to"
      using h(1,4) by (intro range_prod_split) simp_all
    hence Xeq: "range_prod s from to = range_prod s from ?m * range_prod s ?k to" unfolding h(2) .
    have Lpos: "0 < range_prod s from ?m" using posL by (rule range_prod_pos)
    have Rpos: "0 < range_prod s ?k to" using posR by (rule range_prod_pos)
    have Xpos: "0 < range_prod s from to" using "1.prems"(3) by (rule range_prod_pos)
    have "range_prod s from ?m dvd range_prod s from to" unfolding Xeq by simp
    hence "card (prime_divisors (range_prod s from ?m)) \<le> card (prime_divisors (range_prod s from to))"
      using Xpos by (rule card_prime_divisors_mono)
    hence lb: "card (prime_divisors (range_prod s from ?m)) \<le> 2 ^ 31"
      using "1.prems"(4) by (rule le_trans)
    have "range_prod s ?k to dvd range_prod s from to" unfolding Xeq by simp
    hence "card (prime_divisors (range_prod s ?k to)) \<le> card (prime_divisors (range_prod s from to))"
      using Xpos by (rule card_prime_divisors_mono)
    hence rb: "card (prime_divisors (range_prod s ?k to)) \<le> 2 ^ 31"
      using "1.prems"(4) by (rule le_trans)
    from "1.hyps"(1)[OF g False h(1) mlt posL lb]
    obtain Bp where Bp: "cb [] s from ?m = Some Bp" "list_all (\<lambda>v. 1 < v) Bp" "pw_coprime Bp"
      "\<forall>i. from \<le> i \<and> i \<le> ?m \<longrightarrow> factors_over Bp (s ! i)"
      "list_all (\<lambda>v. supp_in v (range_prod s from ?m)) Bp" by blast
    from "1.hyps"(2)[OF g False Bp(1) h(3) "1.prems"(2) posR rb]
    obtain Bq where Bq: "cb [] s ?k to = Some Bq" "list_all (\<lambda>v. 1 < v) Bq" "pw_coprime Bq"
      "\<forall>i. ?k \<le> i \<and> i \<le> to \<longrightarrow> factors_over Bq (s ! i)"
      "list_all (\<lambda>v. supp_in v (range_prod s ?k to)) Bq" by blast
    have spL: "\<And>v. v \<in> set Bp \<Longrightarrow> supp_in v (range_prod s from to)"
      unfolding Xeq using Bp(5) by (auto simp: list_all_iff intro: supp_in_mult_right)
    have spR: "\<And>v. v \<in> set Bq \<Longrightarrow> supp_in v (range_prod s from to)"
      unfolding Xeq using Bq(5) by (auto simp: list_all_iff intro: supp_in_mult_right2)
    have unf: "cb [] s from to =
      (if length Bq \<noteq> 0 \<and> length Bp \<noteq> 0 then cbmerge [] Bp Bq
       else if length Bq = 0 \<and> length Bp \<noteq> 0 then Some ([] @ Bp)
       else if length Bq \<noteq> 0 \<and> length Bp = 0 then Some ([] @ Bq)
       else Some [])"
      using g False Bp(1) Bq(1) by (subst cb.simps) simp
    have side: "\<And>i. from \<le> i \<and> i \<le> to \<Longrightarrow> (i \<le> ?m \<and> factors_over Bp (s ! i)) \<or> (?k \<le> i \<and> factors_over Bq (s ! i))"
    proof -
      fix i assume i: "from \<le> i \<and> i \<le> to"
      show "(i \<le> ?m \<and> factors_over Bp (s ! i)) \<or> (?k \<le> i \<and> factors_over Bq (s ! i))"
      proof (cases "i \<le> ?m")
        case True
        thus ?thesis using Bp(4) i by simp
      next
        case False
        hence "?k \<le> i" using h(2) by simp
        thus ?thesis using Bq(4) i by simp
      qed
    qed
    show ?thesis
    proof (cases "Bp = []")
      case pe: True
      have fp: "\<And>i. from \<le> i \<and> i \<le> to \<Longrightarrow> factors_over Bq (s ! i)"
      proof -
        fix i assume i: "from \<le> i \<and> i \<le> to"
        from side[OF i] show "factors_over Bq (s ! i)"
        proof
          assume "i \<le> ?m \<and> factors_over Bp (s ! i)"
          hence "s ! i = 1" using pe by simp
          thus ?thesis by simp
        qed simp
      qed
      have "cb [] s from to = Some Bq" using unf pe by (cases "Bq = []") simp_all
      thus ?thesis using Bq(2,3) fp spR by (auto simp: list_all_iff)
    next
      case pne: False
      show ?thesis
      proof (cases "Bq = []")
        case qe: True
        have fp: "\<And>i. from \<le> i \<and> i \<le> to \<Longrightarrow> factors_over Bp (s ! i)"
        proof -
          fix i assume i: "from \<le> i \<and> i \<le> to"
          from side[OF i] show "factors_over Bp (s ! i)"
          proof
            assume "?k \<le> i \<and> factors_over Bq (s ! i)"
            hence "s ! i = 1" using qe by simp
            thus ?thesis by simp
          qed simp
        qed
        have "cb [] s from to = Some Bp" using unf pne qe by simp
        thus ?thesis using Bp(2,3) fp spL by (auto simp: list_all_iff)
      next
        case qne: False
        have "length Bq \<le> card (prime_divisors (range_prod s ?k to))"
          using Bq(3,2,5) Rpos by (rule base_length)
        hence small: "length Bq \<le> 2 ^ 31" using rb by (rule le_trans)
        from cbmerge_correct[OF pne Bp(2,3) Bq(2,3) small]
        obtain B where B: "cbmerge [] Bp Bq = Some B" "list_all (\<lambda>v. 1 < v) B" "pw_coprime B"
          "\<forall>v\<in>set Bp \<union> set Bq. factors_over B v"
          "list_all (\<lambda>v. supp_in v (prod_list Bp * prod_list Bq)) B" by blast
        have run: "cb [] s from to = Some B" using unf pne qne B(1) by simp
        have fB: "\<forall>i. from \<le> i \<and> i \<le> to \<longrightarrow> factors_over B (s ! i)"
        proof (intro allI impI)
          fix i assume i: "from \<le> i \<and> i \<le> to"
          from side[OF i] show "factors_over B (s ! i)"
          proof
            assume "i \<le> ?m \<and> factors_over Bp (s ! i)"
            hence f: "factors_over Bp (s ! i)" by simp
            have "\<And>v. v \<in> set Bp \<Longrightarrow> factors_over B v" using B(4) by simp
            thus ?thesis using f by (rule factors_over_trans)
          next
            assume "?k \<le> i \<and> factors_over Bq (s ! i)"
            hence f: "factors_over Bq (s ! i)" by simp
            have "\<And>v. v \<in> set Bq \<Longrightarrow> factors_over B v" using B(4) by simp
            thus ?thesis using f by (rule factors_over_trans)
          qed
        qed
        have "supp_in (prod_list Bp) (range_prod s from to)" using spL by (rule prod_list_supp_in)
        moreover have "supp_in (prod_list Bq) (range_prod s from to)" using spR by (rule prod_list_supp_in)
        ultimately have "supp_in (prod_list Bp * prod_list Bq) (range_prod s from to)"
          by (rule supp_in_mult)
        hence "list_all (\<lambda>v. supp_in v (range_prod s from to)) B"
          using B(5) by (auto simp: list_all_iff intro: supp_in_trans)
        thus ?thesis using run B(2,3) fB by blast
      qed
    qed
  qed
qed

subsection \<open>Results on positive input\<close>






subsection \<open>Beyond the 32-bit shift\<close>

text \<open>
  A round of \<open>cbmerge\<close> with \<open>i \<ge> 32\<close> calls \<open>bit(i, 0)\<close> when \<open>Q\<close> is not empty, so
  \<open>cbmerge\<close> has a result only for a \<open>Q\<close> of at most \<open>2^32\<close> elements.
\<close>

lemma bit_select_defined:
  "bit_select want i q r (k # ks) = Some out \<Longrightarrow> i < 32"
  by (auto simp: bit_k_def bind_eq_Some_conv split: if_splits)

lemma cbmerge_loop_defined:
  "cbmerge_loop q s is = Some out \<Longrightarrow> q \<noteq> [] \<Longrightarrow> i \<in> set is \<Longrightarrow> i < 32"
proof (induction "is" arbitrary: s)
  case Nil
  thus ?case by simp
next
  case (Cons j "is")
  from Cons.prems(1) obtain r s' where r: "bit_select False j q [] [0..<length q] = Some r"
    and l: "cbmerge_loop q s' is = Some out"
    by (auto simp: bind_eq_Some_conv)
  have "[0..<length q] = 0 # [1..<length q]" using Cons.prems(2) by (simp add: upt_conv_Cons)
  hence j: "j < 32" using r bit_select_defined[of False j q "[]" 0 "[1..<length q]" r] by simp
  show ?case
  proof (cases "i = j")
    case True
    thus ?thesis using j by simp
  next
    case False
    hence "i \<in> set is" using Cons.prems(3) by simp
    thus ?thesis using Cons.IH[OF l Cons.prems(2)] by simp
  qed
qed

lemma cbmerge_needs_small:
  assumes "cbmerge s p q = Some out" "q \<noteq> []"
  shows "length q \<le> 2 ^ 32"
proof -
  let ?b = "cbmerge_b (length q)"
  have l: "cbmerge_loop q (s @ p) [0..<?b] = Some out" using assms(1) unfolding cbmerge_def .
  have b: "0 < ?b" "length q \<le> 2 ^ ?b"
    unfolding cbmerge_b_def using cbmerge_b_loop_spec[of 0 "length q"] by simp_all
  hence "?b - 1 \<in> set [0..<?b]" by simp
  hence "?b - 1 < 32" using l assms(2) by (rule cbmerge_loop_defined[rotated 2])
  hence "?b \<le> 32" by simp
  hence "(2::nat) ^ ?b \<le> 2 ^ 32" by (intro power_increasing) simp_all
  thus ?thesis using b(2) by (rule le_trans[rotated])
qed

section \<open>The claims\<close>

subsection \<open>C1: cb computes a coprime base\<close>

text \<open>
  C1: for every array \<open>S\<close> of positive integers with at least one value \<open>\<ge> 2\<close>,
  \<open>cb\<close> over the whole of \<open>S\<close> (and so \<open>array_cb\<close>), started on an empty output array,
  returns a coprime base \<open>B\<close> for \<open>S\<close>: \<open>B\<close> is not
  empty, every element of \<open>B\<close> is \<open>\<ge> 2\<close>, the elements of \<open>B\<close> are pairwise coprime, and
  every element of \<open>S\<close> is a product of powers of the elements of \<open>B\<close>. In particular
  \<open>cb\<close> of \<open>6, 10, 15\<close> is the array \<open>5, 2, 3\<close>, that is the set \<open>{2, 3, 5}\<close>.

  The arrays are those the 32-bit shift in \<open>bit\<close> can serve: the product of \<open>S\<close> has at most
  \<open>2^31\<close> distinct prime divisors. Then no base that \<open>cb\<close> hands to \<open>cbmerge\<close> has more
  than \<open>2^31\<close> elements, and \<open>bit(i, k)\<close> is only called with \<open>i < 31\<close>.
\<close>

theorem cb_computes_coprime_base:
  "((\<forall>s\<in>set S. 0 < s) \<and> (\<exists>s\<in>set S. 2 \<le> s) \<and>
    card (prime_divisors (prod_list S)) \<le> 2 ^ 31 \<longrightarrow>
      (\<exists>B. cb [] S 0 (length S - 1) = Some B \<and> array_cb [] S = Some B \<and> B \<noteq> [] \<and>
           (\<forall>v\<in>set B. 2 \<le> v) \<and>
           (\<forall>i<length B. \<forall>j<length B. i \<noteq> j \<longrightarrow> coprime (B ! i) (B ! j)) \<and>
           (\<forall>s\<in>set S. \<exists>es :: nat list. length es = length B \<and>
                           s = prod_list (map2 (\<lambda>v e. v ^ e) B es)))) \<and>
   cb [] [6, 10, 15] 0 2 = Some [5, 2, 3] \<and> set [5, 2, 3 :: int] = {2, 3, 5}"
proof (intro conjI impI)
  assume h0: "(\<forall>s\<in>set S. 0 < s) \<and> (\<exists>s\<in>set S. 2 \<le> s) \<and>
    card (prime_divisors (prod_list S)) \<le> 2 ^ 31"
  hence "S \<noteq> []" by auto
  with h0 have h: "S \<noteq> [] \<and> (\<forall>s\<in>set S. 0 < s) \<and> (\<exists>s\<in>set S. 2 \<le> s)" by simp
  have "Suc (length S - 1) = length S" using h by simp
  hence "range_prod S 0 (length S - 1) = prod_list S" unfolding range_prod_def by (simp add: map_nth)
  hence few: "card (prime_divisors (range_prod S 0 (length S - 1))) \<le> 2 ^ 31" using h0 by simp
  have le: "0 \<le> length S - 1" and lt: "length S - 1 < length S" using h by simp_all
  have ix: "\<And>i. i \<le> length S - 1 \<Longrightarrow> i < length S" using h by (cases S) simp_all
  have pos: "\<And>i. 0 \<le> i \<Longrightarrow> i \<le> length S - 1 \<Longrightarrow> 0 < S ! i"
  proof -
    fix i assume "i \<le> length S - 1"
    hence "S ! i \<in> set S" using ix by simp
    thus "0 < S ! i" using h by blast
  qed
  from cb_correct[OF le lt pos few]
  obtain B where B: "cb [] S 0 (length S - 1) = Some B" "list_all (\<lambda>v. 1 < v) B" "pw_coprime B"
    "\<forall>i. 0 \<le> i \<and> i \<le> length S - 1 \<longrightarrow> factors_over B (S ! i)" by blast
  have f: "\<forall>s\<in>set S. factors_over B s"
  proof
    fix s assume "s \<in> set S"
    then obtain i where i: "i < length S" "S ! i = s" by (auto simp: in_set_conv_nth)
    hence "i \<le> length S - 1" by simp
    thus "factors_over B s" using B(4) i(2) by auto
  qed
  have ne: "B \<noteq> []"
  proof
    assume "B = []"
    hence "\<forall>s\<in>set S. s = 1" using f by simp
    thus False using h by auto
  qed
  have ge: "\<forall>v\<in>set B. 2 \<le> v" using B(2) by (auto simp: list_all_iff)
  have cp: "\<forall>i<length B. \<forall>j<length B. i \<noteq> j \<longrightarrow> coprime (B ! i) (B ! j)"
  proof (intro allI impI)
    fix i j assume "i < length B" "j < length B" "i \<noteq> j"
    hence "(i < j \<and> j < length B) \<or> (j < i \<and> i < length B)" by auto
    thus "coprime (B ! i) (B ! j)"
      using pw_coprime_nth[OF B(3), of i j] pw_coprime_nth[OF B(3), of j i]
      by (auto simp: coprime_commute)
  qed
  have arr: "array_cb [] S = Some B" using B(1) h by (simp add: array_cb_def)
  show "\<exists>B. cb [] S 0 (length S - 1) = Some B \<and> array_cb [] S = Some B \<and> B \<noteq> [] \<and>
           (\<forall>v\<in>set B. 2 \<le> v) \<and>
           (\<forall>i<length B. \<forall>j<length B. i \<noteq> j \<longrightarrow> coprime (B ! i) (B ! j)) \<and>
           (\<forall>s\<in>set S. \<exists>es :: nat list. length es = length B \<and>
                           s = prod_list (map2 (\<lambda>v e. v ^ e) B es))"
    using B(1) arr ne ge cp f unfolding factors_over_def by blast
next
  show "cb [] [6, 10, 15] 0 2 = Some [5, 2, 3]" by code_simp
next
  show "set [5, 2, 3 :: int] = {2, 3, 5}" by auto
qed

theorem cb_computes_coprime_base_witness:
  "(0 :: int) < 6 \<and> (0 :: int) < 10 \<and> (0 :: int) < 15 \<and> (2 :: int) \<le> 6 \<and>
   card (prime_divisors (prod_list [6, 10, 15])) \<le> 2 ^ 31 \<and>
   (\<exists>B. cb [] [6, 10, 15] 0 (length [6, 10, 15 :: int] - 1) = Some B \<and>
        array_cb [] [6, 10, 15] = Some B \<and> B \<noteq> [] \<and> (\<forall>v\<in>set B. 2 \<le> v) \<and>
        (\<forall>i<length B. \<forall>j<length B. i \<noteq> j \<longrightarrow> coprime (B ! i) (B ! j)) \<and>
        (\<forall>s\<in>set [6, 10, 15]. \<exists>es :: nat list. length es = length B \<and>
                        s = prod_list (map2 (\<lambda>v e. v ^ e) B es)))"
proof -
  have "card (prime_divisors (prod_list [6, 10, 15])) \<le> 2 ^ 31"
    using card_prime_divisors_le[of "prod_list [6, 10, 15]"] by simp
  thus ?thesis using cb_computes_coprime_base[of "[6, 10, 15]"] by simp
qed

subsection \<open>C3: cbextend on an empty base\<close>

text \<open>
  C3 says that \<open>cbextend\<close> with an empty base \<open>P\<close> appends \<open>b\<close> exactly when \<open>b \<noteq> 1\<close> and
  then returns, so that the output gains at most one element. The code has no \<open>return\<close>
  after step 1: it goes on with \<open>x = 1\<close>, \<open>(a, r) = (1, b)\<close> and appends \<open>r = b\<close> a second
  time. For every \<open>b \<noteq> 1\<close> the output gains two copies of \<open>b\<close>; at \<open>b = 2\<close> it is \<open>[2, 2]\<close>.
\<close>

theorem cbextend_empty_base_appends_twice:
  "cbextend ret [] b = Some (if b = 1 then ret else ret @ [b, b]) \<and>
   cbextend [] [] 2 = Some [2, 2]"
  by (simp add: cbextend_empty)

subsection \<open>C4: the base case of find_factor\<close>

text \<open>
  C4: in the base case of \<open>find_factor\<close> (a single base element \<open>P[from]\<close>, that is
  \<open>to = from\<close>), if \<open>reduce(P[from], a)\<close> yields the residue \<open>c = 1\<close> and the original value
  \<open>a0\<close> differs from \<open>P[from]\<close>, then \<open>find_factor\<close> appends the triple
  \<open>(a0, P[from], a0 / P[from])\<close> to the output array and returns false.
\<close>

theorem find_factor_base_emits_triple:
  assumes "from < length p" and "reduce (p ! from) a = Some (m, 1)" and "a0 \<noteq> p ! from"
  shows "find_factor out a0 a p from from =
         Some (out @ [a0, p ! from, a0 div (p ! from)], False)"
  using assms by (rule find_factor_single)

theorem find_factor_base_emits_triple_witness:
  "0 < length [2::int] \<and> reduce ([2] ! 0) 4 = Some (2, 1) \<and> (4::int) \<noteq> [2] ! 0 \<and>
   find_factor [] 4 4 [2] 0 0 = Some ([4, 2, 2], False)"
proof -
  have r: "reduce ([2] ! 0) 4 = Some (2, 1)" by code_simp
  have "find_factor [] 4 4 [2] 0 0 = Some ([] @ [4, [2] ! 0, 4 div ([2] ! 0)], False)"
    by (rule find_factor_base_emits_triple[OF _ r]) simp_all
  thus ?thesis using r by simp
qed

subsection \<open>C6: gcd_ppi_ppo\<close>

text \<open>
  C6: for all positive integers \<open>a\<close> and \<open>b\<close>, \<open>gcd_ppi_ppo(a, b)\<close> returns, its outputs
  \<open>ppi\<close> and \<open>ppo\<close> satisfy \<open>ppi * ppo = a\<close> and \<open>gcd(ppi, ppo) = 1\<close>, and its output \<open>gcd\<close>
  is \<open>gcd(a, b)\<close>.
\<close>

theorem gcd_ppi_ppo_correct:
  fixes a b :: int
  assumes "0 < a" and "0 < b"
  shows "\<exists>g i o'. gcd_ppi_ppo a b = Some (g, i, o') \<and> g = gcd a b \<and> i * o' = a \<and> gcd i o' = 1"
proof -
  from gcd_ppi_ppo_total[OF assms]
  obtain i o' where "gcd_ppi_ppo a b = Some (gcd a b, i, o')" "i * o' = a" "coprime i o'"
    by blast
  thus ?thesis by (auto simp: coprime_iff_gcd_eq_1)
qed

theorem gcd_ppi_ppo_correct_witness:
  "(0::int) < 60 \<and> (0::int) < 6 \<and> gcd_ppi_ppo 60 6 = Some (6, 12, 5) \<and>
   (\<exists>g i o'. gcd_ppi_ppo 60 6 = Some (g, i, o') \<and> g = gcd 60 6 \<and> i * o' = 60 \<and> gcd i o' = 1)"
proof -
  have "gcd_ppi_ppo 60 6 = Some (6, 12, 5)" by code_simp
  thus ?thesis using gcd_ppi_ppo_correct[of 60 6] by simp
qed

subsection \<open>C7: reduce\<close>

text \<open>
  C7: for every \<open>p \<ge> 2\<close> and every positive \<open>a\<close>, \<open>reduce(p, a)\<close> returns a pair \<open>(i, c)\<close>
  with \<open>p^i * c = a\<close> and \<open>p\<close> not dividing \<open>c\<close>; in particular \<open>reduce(3, 108) = (3, 4)\<close>.
\<close>

theorem reduce_correct:
  "(2 \<le> p \<and> 0 < a \<longrightarrow>
      (\<exists>i c. reduce p a = Some (i, c) \<and> 0 \<le> i \<and> p ^ nat i * c = a \<and> \<not> p dvd c)) \<and>
   reduce 3 108 = Some (3, 4)"
proof
  show "2 \<le> p \<and> 0 < a \<longrightarrow>
      (\<exists>i c. reduce p a = Some (i, c) \<and> 0 \<le> i \<and> p ^ nat i * c = a \<and> \<not> p dvd c)"
    using reduce_total[of p a] by blast
  show "reduce 3 108 = Some (3, 4)" by code_simp
qed

theorem reduce_correct_witness:
  "(2::int) \<le> 2 \<and> (0::int) < 40 \<and> reduce 2 40 = Some (3, 5) \<and>
   (\<exists>i c. reduce 2 40 = Some (i, c) \<and> 0 \<le> i \<and> 2 ^ nat i * c = 40 \<and> \<not> 2 dvd c)"
proof -
  have "reduce 2 40 = Some (3, 5)" by code_simp
  thus ?thesis using reduce_correct[of 2 40] by simp
qed

subsection \<open>C9: the iteration count of cbmerge\<close>

text \<open>
  C9 says that \<open>cbmerge\<close> chooses the smallest \<open>b \<ge> 1\<close> with \<open>2^b \<ge> n\<close> for \<open>n = |Q|\<close>, and
  that for \<open>n = 0\<close> it has \<open>b = 0\<close> and returns \<open>P\<close>. The \<open>do ... while\<close> loop increments
  \<open>b\<close> before it tests, so \<open>b = 1\<close> for \<open>n = 0\<close>: the second half of the claim fails.
\<close>

theorem cbmerge_b_zero_counterexample:
  "cbmerge_b (length ([] :: mpz_array)) \<noteq> 0"
  by (simp add: cbmerge_b_zero)

text \<open>
  C9 as amended: the iteration count is the smallest \<open>b \<ge> 1\<close> with \<open>2^b \<ge> n\<close>; for \<open>n = 0\<close>
  it is \<open>1\<close>, the loop body runs once with both products equal to \<open>1\<close>, and the output is
  the initial content of the output array followed by \<open>P\<close>, without the entries equal to
  \<open>1\<close> (so it is \<open>P\<close> for an empty output array and a \<open>P\<close> that does not contain \<open>1\<close>).
\<close>

theorem cbmerge_iteration_count:
  "cbmerge_b n = (LEAST b. 1 \<le> b \<and> n \<le> 2 ^ b) \<and>
   cbmerge_b 0 = 1 \<and>
   cbmerge s p [] = Some (filter (\<lambda>v. v \<noteq> 1) (s @ p))"
  using cbmerge_b_least[of n] cbmerge_b_zero cbmerge_empty_q[of s p] by simp

subsection \<open>C10: termination of reduce\<close>

text \<open>
  C10: for every \<open>p \<ge> 2\<close> and every positive \<open>a\<close> the recursion of \<open>reduce(p, a)\<close>
  terminates, each recursive call replacing \<open>a\<close> by \<open>a / p < a\<close>. The hypothesis \<open>p \<ge> 2\<close>
  is needed: for \<open>p = 1\<close> both divisions succeed, the test \<open>p | a\<close> always holds, the call
  passes on to \<open>reduce(1 * 1, a / 1)\<close>, which is the same call, and no result is ever
  returned.
\<close>

theorem reduce_terminates:
  "(2 \<le> p \<and> 0 < a \<longrightarrow> (\<exists>r. reduce p a = Some r)) \<and>
   (2 \<le> p \<and> 0 < a \<and> p dvd a \<longrightarrow> 0 < a div p \<and> a div p < a) \<and>
   reduce 1 a = None \<and> mpz_fdiv_r a 1 = Some 0 \<and> mpz_fdiv_q a 1 = Some a"
proof (intro conjI impI)
  assume "2 \<le> p \<and> 0 < a"
  thus "\<exists>r. reduce p a = Some r" using reduce_total[of p a] by blast
next
  assume h: "2 \<le> p \<and> 0 < a \<and> p dvd a"
  thus "0 < a div p" by (simp add: pos_imp_zdiv_pos_iff zdvd_imp_le)
  show "a div p < a" using h by (simp add: int_div_less_self)
next
  show "reduce 1 a = None" by (rule reduce_one_diverges)
qed simp_all

theorem reduce_terminates_witness:
  "(2::int) \<le> 2 \<and> (0::int) < 40 \<and> (2::int) dvd 40 \<and> (\<exists>r. reduce 2 40 = Some r) \<and>
   (0::int) < 40 div 2 \<and> (40::int) div 2 < 40"
  using reduce_terminates[of 2 40] by simp

subsection \<open>C2: find_factor on a product of powers\<close>

text \<open>
  What \<open>find_factor(a, a, P)\<close> does on a product of powers of a pairwise coprime base: it
  stops at the first base element other than \<open>a\<close>.
\<close>

lemma find_factor_result:
  assumes "p \<noteq> []"
    and "\<forall>i<length p. 2 \<le> p ! i"
    and "\<forall>i<length p. \<forall>j<length p. i \<noteq> j \<longrightarrow> coprime (p ! i) (p ! j)"
    and "a = prod_list (map (\<lambda>i. p ! i ^ e i) [0..<length p])"
  shows "find_factor out a a p 0 (length p - 1) =
           (case List.find (\<lambda>v. v \<noteq> a) p of
              None \<Rightarrow> Some (out, True)
            | Some v \<Rightarrow> Some (out @ [a, v, a div v], False)) \<and>
         (List.find (\<lambda>v. v \<noteq> a) p = None \<longleftrightarrow> p = [a]) \<and>
         (\<forall>v. List.find (\<lambda>v. v \<noteq> a) p = Some v \<and> v dvd a \<longrightarrow>
              1 < v \<and> v < a \<and> v * (a div v) = a)"
proof (intro conjI allI impI)
  have le: "0 \<le> length p - 1" and lt: "length p - 1 < length p" using assms(1) by simp_all
  have S: "Suc (length p - 1) = length p" using assms(1) by simp
  have ix: "\<And>i. i \<le> length p - 1 \<Longrightarrow> i < length p" using assms(1) by (cases p) simp_all
  have ge: "\<And>i. 0 \<le> i \<Longrightarrow> i \<le> length p - 1 \<Longrightarrow> 2 \<le> p ! i" using assms(2) ix by blast
  have cop: "\<And>i j. 0 \<le> i \<Longrightarrow> i < j \<Longrightarrow> j \<le> length p - 1 \<Longrightarrow> coprime (p ! i) (p ! j)"
  proof -
    fix i j :: nat assume "i < j" "j \<le> length p - 1"
    hence "i < length p" "j < length p" "i \<noteq> j" using ix[of j] by simp_all
    thus "coprime (p ! i) (p ! j)" using assms(3) by blast
  qed
  have a: "a = range_pow p e 0 (length p - 1)" unfolding range_pow_def S by (rule assms(4))
  have "find_factor out a a p 0 (length p - 1) = emit out a (map (nth p) [0..<Suc (length p - 1)])"
    using le lt ge cop a by (rule find_factor_powers)
  thus "find_factor out a a p 0 (length p - 1) =
           (case List.find (\<lambda>v. v \<noteq> a) p of
              None \<Rightarrow> Some (out, True)
            | Some v \<Rightarrow> Some (out @ [a, v, a div v], False))"
    unfolding S emit_def by (simp add: map_nth)
  have apos: "0 < a" unfolding a using ge by (intro range_pow_pos) force
  show "List.find (\<lambda>v. v \<noteq> a) p = None \<longleftrightarrow> p = [a]"
  proof
    assume "List.find (\<lambda>v. v \<noteq> a) p = None"
    hence all: "\<forall>x\<in>set p. x = a" by (simp add: find_None_iff)
    have "length p = 1"
    proof (rule ccontr)
      assume "length p \<noteq> 1"
      hence l2: "0 < length p" "1 < length p" using assms(1) by (cases p, simp, cases "tl p", simp_all)+
      hence "coprime (p ! 0) (p ! 1)" using assms(3) by simp
      moreover have "p ! 0 = a" "p ! 1 = a" using all l2 by simp_all
      ultimately have "coprime a a" by simp
      hence "a = 1" using apos by simp
      moreover have "2 \<le> a" using \<open>p ! 0 = a\<close> assms(2) l2(1) by auto
      ultimately show False by simp
    qed
    then obtain x where "p = [x]" by (cases p) simp_all
    thus "p = [a]" using all by simp
  next
    assume "p = [a]"
    thus "List.find (\<lambda>v. v \<noteq> a) p = None" by simp
  qed
next
  fix v
  assume h: "List.find (\<lambda>v. v \<noteq> a) p = Some v \<and> v dvd a"
  have apos: "0 < a"
    unfolding assms(4) using assms(2) by (intro prod_list_pos_int) (auto simp del: upt_Suc)
  from h have "v \<in> set p" "v \<noteq> a" by (auto simp: find_Some_iff)
  then obtain i where "i < length p" "p ! i = v" by (auto simp: in_set_conv_nth)
  hence v2: "2 \<le> v" using assms(2) by auto
  thus "1 < v" by simp
  have "v \<le> a" using h apos by (simp add: zdvd_imp_le)
  thus "v < a" using \<open>v \<noteq> a\<close> by simp
  show "v * (a div v) = a" using h by simp
qed

text \<open>
  C2 says that \<open>find_factor(a, a, P)\<close> returns true whenever \<open>a\<close> is a product of powers
  of elements of the pairwise coprime base \<open>P\<close>, and that every triple it emits names a
  non-trivial factor of \<open>a\<close>. The base case sets \<open>r = 0\<close> after emitting a triple, so the
  function returns false when it has found a factor: for \<open>a = 6 = 2 * 3\<close> and \<open>P = [2, 3]\<close>
  it emits \<open>(6, 2, 3)\<close> and returns false.
\<close>

theorem find_factor_returns_false_counterexample:
  "(6::int) = 2 ^ 1 * 3 ^ 1 \<and> find_factor [] 6 6 [2, 3] 0 1 = Some ([6, 2, 3], False)"
proof -
  have "find_factor [] 6 6 [2, 3] 0 1 = Some ([6, 2, 3], False)" by code_simp
  thus ?thesis by simp
qed

text \<open>
  The base case never looks at the exponent that \<open>reduce\<close> returns: a base element that
  does not divide \<open>a\<close> at all is emitted like a factor. The triples \<open>(2, 3, 0)\<close> and
  \<open>(3, 2, 1)\<close> are no factorisations.
\<close>

lemma find_factor_emits_non_factor:
  "find_factor [] 2 2 [2, 3] 0 1 = Some ([2, 3, 0], False) \<and> \<not> (3::int) dvd 2 \<and>
   find_factor [] 3 3 [2, 3] 0 1 = Some ([3, 2, 1], False) \<and> \<not> (2::int) dvd 3"
proof -
  have "find_factor [] 2 2 [2, 3] 0 1 = Some ([2, 3, 0], False)" by code_simp
  moreover have "find_factor [] 3 3 [2, 3] 0 1 = Some ([3, 2, 1], False)" by code_simp
  ultimately show ?thesis by simp
qed

text \<open>
  C2 as amended: for every non-empty list \<open>P\<close> of pairwise coprime integers \<open>\<ge> 2\<close> and
  every \<open>a\<close> that is a product of powers of the elements of \<open>P\<close>: if \<open>P\<close> is the single
  element \<open>a\<close>, \<open>find_factor(a, a, P)\<close> returns true and emits nothing; if the first element
  \<open>v\<close> of \<open>P\<close> differs from \<open>a\<close> and divides \<open>a\<close>, it returns false after appending exactly
  the triple \<open>(a, v, a / v)\<close>, and \<open>v\<close> is a non-trivial factor of \<open>a\<close>: \<open>1 < v < a\<close> and
  \<open>v * (a / v) = a\<close>.
\<close>

theorem find_factor_on_product_of_powers:
  assumes "p \<noteq> []"
    and "\<forall>i<length p. 2 \<le> p ! i"
    and "\<forall>i<length p. \<forall>j<length p. i \<noteq> j \<longrightarrow> coprime (p ! i) (p ! j)"
    and "a = prod_list (map (\<lambda>i. p ! i ^ e i) [0..<length p])"
  shows "(p = [a] \<longrightarrow> find_factor out a a p 0 (length p - 1) = Some (out, True)) \<and>
         (p ! 0 \<noteq> a \<and> p ! 0 dvd a \<longrightarrow>
            find_factor out a a p 0 (length p - 1) = Some (out @ [a, p ! 0, a div p ! 0], False) \<and>
            1 < p ! 0 \<and> p ! 0 < a \<and> p ! 0 * (a div p ! 0) = a)"
proof -
  note r = find_factor_result[OF assms, of out]
  have single: "p = [a] \<longrightarrow> find_factor out a a p 0 (length p - 1) = Some (out, True)"
  proof
    assume "p = [a]"
    hence "List.find (\<lambda>v. v \<noteq> a) p = None" by simp
    thus "find_factor out a a p 0 (length p - 1) = Some (out, True)" using r by simp
  qed
  have factor: "p ! 0 \<noteq> a \<and> p ! 0 dvd a \<longrightarrow>
            find_factor out a a p 0 (length p - 1) = Some (out @ [a, p ! 0, a div p ! 0], False) \<and>
            1 < p ! 0 \<and> p ! 0 < a \<and> p ! 0 * (a div p ! 0) = a"
  proof
    assume h: "p ! 0 \<noteq> a \<and> p ! 0 dvd a"
    obtain x xs where p: "p = x # xs" using assms(1) by (cases p) simp_all
    have f: "List.find (\<lambda>v. v \<noteq> a) p = Some (p ! 0)" using h unfolding p by simp
    show "find_factor out a a p 0 (length p - 1) = Some (out @ [a, p ! 0, a div p ! 0], False) \<and>
          1 < p ! 0 \<and> p ! 0 < a \<and> p ! 0 * (a div p ! 0) = a"
      using r f h by simp
  qed
  show ?thesis using single factor by (rule conjI)
qed

theorem find_factor_on_product_of_powers_witness:
  "find_factor [] 6 6 [6] 0 (length [6 :: int] - 1) = Some ([], True) \<and>
   [2, 3 :: int] ! 0 \<noteq> 6 \<and> [2, 3 :: int] ! 0 dvd 6 \<and>
   find_factor [] 6 6 [2, 3] 0 (length [2, 3 :: int] - 1) = Some ([] @ [6, 2, 6 div 2], False) \<and>
   (1 :: int) < 2 \<and> (2 :: int) < 6 \<and> (2 :: int) * (6 div 2) = 6"
proof -
  have h1: "[2, 3 :: int] \<noteq> []" by simp
  have h2: "\<forall>i<length [2, 3 :: int]. 2 \<le> [2, 3 :: int] ! i" by code_simp
  have h3: "\<forall>i<length [2, 3 :: int]. \<forall>j<length [2, 3 :: int].
              i \<noteq> j \<longrightarrow> coprime ([2, 3 :: int] ! i) ([2, 3] ! j)" by code_simp
  have h4: "(6 :: int) = prod_list (map (\<lambda>i. [2, 3] ! i ^ (\<lambda>_. 1) i) [0..<length [2, 3 :: int]])"
    by simp
  have g1: "[6 :: int] \<noteq> []" by simp
  have g2: "\<forall>i<length [6 :: int]. 2 \<le> [6 :: int] ! i" by simp
  have g3: "\<forall>i<length [6 :: int]. \<forall>j<length [6 :: int].
              i \<noteq> j \<longrightarrow> coprime ([6 :: int] ! i) ([6] ! j)" by simp
  have g4: "(6 :: int) = prod_list (map (\<lambda>i. [6] ! i ^ (\<lambda>_. 1) i) [0..<length [6 :: int]])"
    by simp
  show ?thesis
    using find_factor_on_product_of_powers[OF h1 h2 h3 h4, of "[]"]
      find_factor_on_product_of_powers[OF g1 g2 g3 g4, of "[]"] by simp
qed

subsection \<open>C5: split\<close>

text \<open>
  C5 says that for every positive \<open>a\<close> and every non-empty list \<open>P\<close> of positive integers
  \<open>split(a, P)\<close> appends \<open>|P|\<close> values \<open>S\<close> whose product is \<open>ppi(a, \<Prod>P)\<close>. For a base that
  is not pairwise coprime the product is wrong: \<open>split(4, [2, 2])\<close> appends \<open>[4, 4]\<close>, with
  product \<open>16\<close>, while \<open>ppi(4, 2 * 2) = 4\<close>. And \<open>S[i]\<close> need not be a product of powers
  of \<open>P[i]\<close>: \<open>split(2, [4])\<close> appends \<open>2\<close>, which divides \<open>4\<close> and is no power of \<open>4\<close>.
\<close>

theorem split_product_counterexample:
  "split [] 4 [2, 2] 0 1 = Some [4, 4] \<and> ppi 4 (prod_list [2, 2]) = Some 4 \<and>
   prod_list [4, 4 :: int] \<noteq> 4 \<and>
   split [] 2 [4] 0 0 = Some [2] \<and> \<not> (\<exists>e :: nat. (2 :: int) = 4 ^ e)"
proof -
  have "split [] 4 [2, 2] 0 1 = Some [4, 4]" by code_simp
  moreover have "ppi 4 (prod_list [2, 2]) = Some 4" by code_simp
  moreover have "split [] 2 [4] 0 0 = Some [2]" by code_simp
  moreover have "\<not> (\<exists>e :: nat. (2 :: int) = 4 ^ e)"
  proof
    assume "\<exists>e :: nat. (2 :: int) = 4 ^ e"
    then obtain e :: nat where e: "(2 :: int) = 4 ^ e" by blast
    show False
    proof (cases e)
      case 0
      thus False using e by simp
    next
      case (Suc n)
      hence "(4 :: int) dvd 4 ^ e" by simp
      hence "(4 :: int) dvd 2" using e by simp
      thus False by simp
    qed
  qed
  ultimately show ?thesis by simp
qed

text \<open>
  C5 as amended: for every positive \<open>a\<close> and every non-empty list \<open>P\<close> of pairwise coprime
  positive integers, \<open>split(a, P)\<close> appends exactly \<open>|P|\<close> values \<open>S\<close> to the output array,
  in positional correspondence with \<open>P\<close>, such that \<open>\<Prod> S[i] = ppi(a, \<Prod>P)\<close> and each
  \<open>S[i]\<close> is \<open>ppi(a, P[i])\<close>: a divisor of \<open>a\<close> that divides a power of \<open>P[i]\<close>.
\<close>

theorem split_over_coprime_base:
  assumes "0 < a" and "p \<noteq> []"
    and "\<forall>i<length p. 0 < p ! i"
    and "\<forall>i<length p. \<forall>j<length p. i \<noteq> j \<longrightarrow> coprime (p ! i) (p ! j)"
  shows "\<exists>S. split ret a p 0 (length p - 1) = Some (ret @ S) \<and> length S = length p \<and>
           ppi a (prod_list p) = Some (prod_list S) \<and>
           (\<forall>i<length p. ppi a (p ! i) = Some (S ! i) \<and> S ! i dvd a \<and> (\<exists>k. S ! i dvd p ! i ^ k))"
proof -
  have le: "0 \<le> length p - 1" and lt: "length p - 1 < length p" using assms(2) by simp_all
  have S: "Suc (length p - 1) = length p" using assms(2) by simp
  have ix: "\<And>i. i \<le> length p - 1 \<Longrightarrow> i < length p" using assms(2) by (cases p) simp_all
  have pos: "\<And>i. 0 \<le> i \<Longrightarrow> i \<le> length p - 1 \<Longrightarrow> 0 < p ! i" using assms(3) ix by blast
  have cop: "\<And>i j. 0 \<le> i \<Longrightarrow> i < j \<Longrightarrow> j \<le> length p - 1 \<Longrightarrow> coprime (p ! i) (p ! j)"
  proof -
    fix i j :: nat assume "i < j" "j \<le> length p - 1"
    hence "i < length p" "j < length p" "i \<noteq> j" using ix[of j] by simp_all
    thus "coprime (p ! i) (p ! j)" using assms(4) by blast
  qed
  have rp: "range_prod p 0 (length p - 1) = prod_list p"
    unfolding range_prod_def S by (simp add: map_nth)
  from split_coprime[OF le lt assms(1) pos cop, of ret]
  obtain S where s: "split ret a p 0 (length p - 1) = Some (ret @ S)"
    "length S = Suc (length p - 1 - 0)"
    "\<forall>i\<le>length p - 1 - 0. ppi a (p ! (0 + i)) = Some (S ! i)"
    "ppi a (range_prod p 0 (length p - 1)) = Some (prod_list S)" by blast
  have "\<forall>i<length p. ppi a (p ! i) = Some (S ! i) \<and> S ! i dvd a \<and> (\<exists>k. S ! i dvd p ! i ^ k)"
  proof (intro allI impI)
    fix i assume i: "i < length p"
    hence e: "ppi a (p ! i) = Some (S ! i)" using s(3) by simp
    from ppi_total[OF assms(1), of "p ! i"] assms(3) i e
    have "S ! i dvd a" "supp_in (S ! i) (p ! i)" by auto
    thus "ppi a (p ! i) = Some (S ! i) \<and> S ! i dvd a \<and> (\<exists>k. S ! i dvd p ! i ^ k)"
      using e by (simp add: supp_in_def)
  qed
  thus ?thesis using s(1,2,4) S rp by auto
qed

theorem split_over_coprime_base_witness:
  "(0::int) < 20 \<and> [2, 3, 5 :: int] \<noteq> [] \<and> split [] 20 [2, 3, 5] 0 2 = Some [4, 1, 5] \<and>
   (\<exists>S. split [] 20 [2, 3, 5] 0 (length [2, 3, 5 :: int] - 1) = Some ([] @ S) \<and>
        length S = length [2, 3, 5 :: int] \<and>
        ppi 20 (prod_list [2, 3, 5]) = Some (prod_list S) \<and>
        (\<forall>i<length [2, 3, 5 :: int]. ppi 20 ([2, 3, 5] ! i) = Some (S ! i) \<and> S ! i dvd 20 \<and>
             (\<exists>k. S ! i dvd [2, 3, 5] ! i ^ k)))"
proof -
  have h1: "(0::int) < 20" by simp
  have h2: "[2, 3, 5 :: int] \<noteq> []" by simp
  have h3: "\<forall>i<length [2, 3, 5 :: int]. 0 < [2, 3, 5 :: int] ! i" by code_simp
  have h4: "\<forall>i<length [2, 3, 5 :: int]. \<forall>j<length [2, 3, 5 :: int].
              i \<noteq> j \<longrightarrow> coprime ([2, 3, 5 :: int] ! i) ([2, 3, 5] ! j)" by code_simp
  have v: "split [] 20 [2, 3, 5] 0 2 = Some [4, 1, 5]" by code_simp
  show ?thesis using split_over_coprime_base[OF h1 h2 h3 h4, of "[]"] v by simp
qed

subsection \<open>C8: values in arrays\<close>



end
